theory Spec2Isabelle
  imports Complex_Main "HOL-Library.Sublist"
begin

section \<open>JavaScript strings\<close>

text \<open>
  A JavaScript string is a sequence of UTF-16 code units. The embedding covers the
  strings all of whose code units are below 256, one \<^typ>\<open>char\<close> per code unit,
  so that \<^const>\<open>length\<close> is \<^verbatim>\<open>.length\<close> and \<open>s ! i\<close> is the code unit at index \<open>i\<close>.
\<close>

definition codeUnit :: "char \<Rightarrow> nat" where
  "codeUnit c = of_char c"

definition backslash :: char where
  "backslash = CHR 0x5C"

text \<open>
  \<^verbatim>\<open>String.prototype.toLowerCase\<close> on code units below 256: the ASCII capitals and
  the Latin-1 capitals 0xC0..0xDE (0xD7, the multiplication sign, apart) move up by 32.
\<close>

definition toLowerCaseChar :: "char \<Rightarrow> char" where
  "toLowerCaseChar c =
     (let n = codeUnit c
      in if (65 \<le> n \<and> n \<le> 90) \<or> (192 \<le> n \<and> n \<le> 222 \<and> n \<noteq> 215)
         then char_of (n + 32) else c)"

definition toLowerCase :: "string \<Rightarrow> string" where
  "toLowerCase s = map toLowerCaseChar s"

text \<open>
  \<^verbatim>\<open>String.prototype.includes\<close>: the pattern occurs at some index of the string.
\<close>

fun includesStr :: "string \<Rightarrow> string \<Rightarrow> bool" where
  "includesStr [] p = (p = [])"
| "includesStr (c # cs) p = (prefix p (c # cs) \<or> includesStr cs p)"

text \<open>
  \<^verbatim>\<open>String.prototype.trim\<close> strips white space and line terminators from both
  ends; below 256 these are TAB, LF, VT, FF, CR, SPACE and NBSP.
\<close>

definition isWhiteSpace :: "char \<Rightarrow> bool" where
  "isWhiteSpace c = (codeUnit c \<in> {9, 10, 11, 12, 13, 32, 160})"

definition trim :: "string \<Rightarrow> string" where
  "trim s = rev (dropWhile isWhiteSpace (rev (dropWhile isWhiteSpace s)))"

text \<open>
  \<^verbatim>\<open>String.prototype.slice(start, end)\<close> for indices \<open>0 \<le> start\<close>,
  \<open>end \<le> length\<close>, the only ones the program passes.
\<close>

definition slice :: "string \<Rightarrow> nat \<Rightarrow> nat \<Rightarrow> string" where
  "slice s start stop = take (stop - start) (drop start s)"

section \<open>Regular expressions\<close>

text \<open>
  The fourteen syntax characters of a JavaScript pattern; they are also exactly the
  characters of the class in \<^verbatim>\<open>escapeRegex\<close>.
\<close>

definition syntaxChars :: string where
  "syntaxChars = [CHR ''.'', CHR ''*'', CHR ''+'', CHR ''?'', CHR ''^'', CHR ''$'', CHR ''{'',
     CHR ''}'', CHR ''('', CHR '')'', CHR ''|'', CHR ''['', CHR '']'', backslash]"

text \<open>
  \<^verbatim>\<open>escapeRegex(string) { return string.replace(/[.*+?^${}()|[\]\\]/g, '\\$&'); }\<close>
\<close>

definition escapeRegex :: "string \<Rightarrow> string" where
  "escapeRegex s = concat (map (\<lambda>c. if c \<in> set syntaxChars then [backslash, c] else [c]) s)"

text \<open>
  The patterns the program builds are interpreted here when they lie in this fragment of
  the pattern language: a sequence of word-boundary assertions \<^verbatim>\<open>\b\<close>, escaped syntax
  characters, characters that are not syntax characters, and \<^verbatim>\<open>.*\<close>.
\<close>

datatype rx = WordB | Lit char | DotStar

fun parseFragment :: "string \<Rightarrow> rx list option" where
  "parseFragment [] = Some []"
| "parseFragment (c # cs) =
     (if c = backslash then
        (case cs of
           [] \<Rightarrow> None
         | d # ds \<Rightarrow>
             if d = CHR ''b'' then map_option ((#) WordB) (parseFragment ds)
             else if d \<in> set syntaxChars then map_option ((#) (Lit d)) (parseFragment ds)
             else None)
      else if c = CHR ''.'' then
        (case cs of
           [] \<Rightarrow> None
         | d # ds \<Rightarrow>
             if d = CHR ''*'' then map_option ((#) DotStar) (parseFragment ds) else None)
      else if c \<in> set syntaxChars then None
      else map_option ((#) (Lit c)) (parseFragment cs))"

text \<open>
  The flag \<^verbatim>\<open>i\<close> compares canonicalised code units: the upper-case form when it is
  one code unit. Below 256 the ASCII and Latin-1 small letters move down by 32; 0xDF
  (upper case of two units), 0xB5 and 0xFF (upper case above 255, shared with no other
  code unit below 256) compare equal to themselves only, as fixed points do.
\<close>

definition canonicalize :: "char \<Rightarrow> char" where
  "canonicalize c =
     (let n = codeUnit c
      in if (97 \<le> n \<and> n \<le> 122) \<or> (224 \<le> n \<and> n \<le> 254 \<and> n \<noteq> 247)
         then char_of (n - 32) else c)"

text \<open>Without the flag \<^verbatim>\<open>u\<close>, the word characters are \<^verbatim>\<open>[A-Za-z0-9_]\<close>.\<close>

definition isWordChar :: "char \<Rightarrow> bool" where
  "isWordChar c =
     (let n = codeUnit c
      in (48 \<le> n \<and> n \<le> 57) \<or> (65 \<le> n \<and> n \<le> 90) \<or> n = 95 \<or> (97 \<le> n \<and> n \<le> 122))"

definition wordBoundary :: "string \<Rightarrow> nat \<Rightarrow> bool" where
  "wordBoundary t i =
     (let a = (0 < i \<and> i \<le> length t \<and> isWordChar (t ! (i - 1)));
          b = (i < length t \<and> isWordChar (t ! i))
      in a \<noteq> b)"

definition isLineTerminator :: "char \<Rightarrow> bool" where
  "isLineTerminator c = (codeUnit c \<in> {10, 13})"

definition dotRun :: "string \<Rightarrow> nat \<Rightarrow> nat" where
  "dotRun t i = length (takeWhile (\<lambda>c. \<not> isLineTerminator c) (drop i t))"

fun firstSome :: "'a option list \<Rightarrow> 'a option" where
  "firstSome [] = None"
| "firstSome (x # xs) = (case x of Some y \<Rightarrow> Some y | None \<Rightarrow> firstSome xs)"

text \<open>
  The backtracking matcher: \<open>mtch rs t i\<close> is the end index of the match of \<open>rs\<close> that
  starts at index \<open>i\<close> of \<open>t\<close>; the greedy \<^verbatim>\<open>.*\<close> tries the longest run first.
\<close>

fun mtch :: "rx list \<Rightarrow> string \<Rightarrow> nat \<Rightarrow> nat option" where
  "mtch [] t i = Some i"
| "mtch (WordB # rs) t i = (if wordBoundary t i then mtch rs t i else None)"
| "mtch (Lit c # rs) t i =
     (if i < length t \<and> canonicalize (t ! i) = canonicalize c then mtch rs t (Suc i) else None)"
| "mtch (DotStar # rs) t i =
     firstSome (map (\<lambda>j. mtch rs t j) (rev [i ..< Suc (i + dotRun t i)]))"

text \<open>
  \<^verbatim>\<open>RegExpBuiltinExec\<close> from \<^verbatim>\<open>lastIndex = k\<close>: the first start index from \<open>k\<close> on at
  which the pattern matches, with the end index of the match.
\<close>

definition execFrom :: "rx list \<Rightarrow> string \<Rightarrow> nat \<Rightarrow> (nat \<times> nat) option" where
  "execFrom rs t k =
     firstSome (map (\<lambda>i. map_option (Pair i) (mtch rs t i)) [k ..< Suc (length t)])"

lemma firstSome_map_SomeD:
  "firstSome (map f xs) = Some y \<Longrightarrow> \<exists>x \<in> set xs. f x = Some y"
  by (induction xs) (auto split: option.splits)

lemma mtch_end_ge: "mtch rs t i = Some e \<Longrightarrow> i \<le> e"
proof (induction rs arbitrary: i)
  case Nil
  then show ?case by simp
next
  case (Cons r rs)
  show ?case
  proof (cases r)
    case WordB
    with Cons show ?thesis by (auto split: if_splits)
  next
    case (Lit c)
    with Cons.prems have "mtch rs t (Suc i) = Some e" by (auto split: if_splits)
    from Cons.IH [OF this] show ?thesis by simp
  next
    case DotStar
    with Cons.prems
    have "firstSome (map (\<lambda>j. mtch rs t j) (rev [i ..< Suc (i + dotRun t i)])) = Some e"
      by (simp only: mtch.simps)
    from firstSome_map_SomeD [OF this]
    obtain j where "j \<in> set (rev [i ..< Suc (i + dotRun t i)])" and "mtch rs t j = Some e"
      by blast
    then have j: "i \<le> j" "mtch rs t j = Some e"
      by (simp_all del: upt_Suc)
    from Cons.IH [OF j(2)] j(1) show ?thesis by simp
  qed
qed

lemma execFrom_SomeD:
  "execFrom rs t k = Some (i, e) \<Longrightarrow> k \<le> i \<and> i \<le> length t \<and> i \<le> e"
  unfolding execFrom_def
  by (auto dest!: firstSome_map_SomeD dest: mtch_end_ge)

text \<open>
  \<^verbatim>\<open>[...text.matchAll(regex)]\<close> with the flag \<^verbatim>\<open>g\<close>: successive matches from
  \<^verbatim>\<open>lastIndex\<close>, which moves to the end of each match and one further after an
  empty match. The result lists the start index of each match.
\<close>

function matchAllFrom :: "rx list \<Rightarrow> string \<Rightarrow> nat \<Rightarrow> nat list" where
  "matchAllFrom rs t k =
     (case execFrom rs t k of
        None \<Rightarrow> []
      | Some (i, e) \<Rightarrow> i # matchAllFrom rs t (if e = i then Suc e else e))"
  by pat_completeness auto
termination
proof (relation "measure (\<lambda>(rs, t, k). Suc (length t) - k)")
  show "wf (measure (\<lambda>(rs, t, k). Suc (length t) - k))" by simp
next
  fix rs :: "rx list" and t :: string and k :: nat and x2 :: "nat \<times> nat" and i e :: nat
  assume "execFrom rs t k = Some x2" and "(i, e) = x2"
  then have "execFrom rs t k = Some (i, e)" by simp
  from execFrom_SomeD [OF this]
  show "((rs, t, if e = i then Suc e else e), rs, t, k)
          \<in> measure (\<lambda>(rs, t, k). Suc (length t) - k)"
    by auto
qed

declare matchAllFrom.simps [simp del]

section \<open>Errors\<close>

text \<open>
  A thrown JavaScript error. \<open>SyntaxError p\<close> is what \<^verbatim>\<open>new RegExp(p, 'i')\<close> throws
  on an invalid pattern \<open>p\<close>; \<open>Failure m\<close> is any other error, with message \<open>m\<close>.
  The message of a syntax error ends with an engine-specific detail that is left out.
\<close>

datatype js_error = SyntaxError string | Failure string

fun message :: "js_error \<Rightarrow> string" where
  "message (SyntaxError p) = ''Invalid regular expression: /'' @ p @ ''/i''"
| "message (Failure m) = m"

section \<open>The RegExp built-in\<close>

definition countChar :: "char \<Rightarrow> string \<Rightarrow> nat" where
  "countChar c p = length (filter ((=) c) p)"

fun danglingQuantifier :: "string \<Rightarrow> bool" where
  "danglingQuantifier (a # b # cs) =
     ((a \<in> {CHR ''*'', CHR ''+''} \<and> b \<in> {CHR ''*'', CHR ''+''}) \<or> danglingQuantifier (b # cs))"
| "danglingQuantifier cs = False"

text \<open>
  Patterns the constructor is known to reject. With no backslash and no bracket in the
  pattern, every parenthesis opens or closes a group and every \<^verbatim>\<open>*\<close> and \<^verbatim>\<open>+\<close> is a
  quantifier: unequal numbers of \<^verbatim>\<open>(\<close> and \<^verbatim>\<open>)\<close> leave a group unterminated or
  unopened, and a \<^verbatim>\<open>*\<close> or \<^verbatim>\<open>+\<close> right after another has nothing to repeat.
\<close>

definition rejected :: "string \<Rightarrow> bool" where
  "rejected p =
     (backslash \<notin> set p \<and> CHR ''['' \<notin> set p \<and>
      (countChar (CHR ''('') p \<noteq> countChar (CHR '')'') p \<or> danglingQuantifier p))"

text \<open>
  The built-in on every other pattern is a parameter: \<open>builtin p s\<close> is the list of the
  start indices of the successive matches of \<^verbatim>\<open>new RegExp(p, 'gi')\<close> in \<open>s\<close>, or the
  error the constructor throws.
\<close>

type_synonym regexp_builtin = "string \<Rightarrow> string \<Rightarrow> js_error + nat list"

definition matchAllIndices :: "regexp_builtin \<Rightarrow> string \<Rightarrow> string \<Rightarrow> js_error + nat list" where
  "matchAllIndices builtin p s =
     (case parseFragment p of
        Some rs \<Rightarrow> Inr (matchAllFrom rs s 0)
      | None \<Rightarrow> if rejected p then Inl (SyntaxError p) else builtin p s)"

text \<open>
  \<^verbatim>\<open>text.match(regex)\<close> without the flag \<^verbatim>\<open>g\<close>: the first match, which is also the
  first one \<^verbatim>\<open>matchAll\<close> finds; \<^verbatim>\<open>regex.test(text)\<close>: whether there is one.
\<close>

definition matchFirst :: "regexp_builtin \<Rightarrow> string \<Rightarrow> string \<Rightarrow> js_error + nat option" where
  "matchFirst builtin p s =
     (case matchAllIndices builtin p s of
        Inl e \<Rightarrow> Inl e
      | Inr [] \<Rightarrow> Inr None
      | Inr (i # _) \<Rightarrow> Inr (Some i))"

definition regexTest :: "regexp_builtin \<Rightarrow> string \<Rightarrow> string \<Rightarrow> js_error + bool" where
  "regexTest builtin p s =
     (case matchAllIndices builtin p s of
        Inl e \<Rightarrow> Inl e
      | Inr ms \<Rightarrow> Inr (ms \<noteq> []))"

section \<open>GeminiService: sentiment\<close>

datatype sentiment = Positive | Neutral | Negative

definition positivePatterns :: "string list" where
  "positivePatterns =
     [''best'', ''excellent'', ''great'', ''recommended'', ''leading'', ''top'',
      ''powerful'', ''popular'', ''reliable'', ''trusted'', ''innovative'',
      ''easy to use'', ''intuitive'', ''robust'', ''comprehensive'', ''outstanding'',
      ''impressive'', ''exceptional'', ''superior'', ''favorite'', ''preferred'',
      ''highly rated'', ''well-known'', ''industry leader'', ''market leader'',
      ''stands out'', ''excels'', ''shines'', ''ideal'', ''perfect for'']"

definition negativePatterns :: "string list" where
  "negativePatterns =
     [''expensive'', ''complex'', ''difficult'', ''limited'', ''lacking'',
      ''poor'', ''slow'', ''outdated'', ''complicated'', ''overpriced'',
      ''basic'', ''frustrating'', ''clunky'', ''steep learning curve'',
      ''confusing'', ''unreliable'', ''disappointing'', ''worst'', ''avoid'',
      ''issues'', ''problems'', ''bugs'', ''crashes'', ''not recommended'']"

record sentimentResult =
  sr_sentiment :: sentiment
  sr_score :: real

text \<open>
  The two loops of \<^verbatim>\<open>analyzeSentiment\<close> over the lexicons; the state is the pair of
  \<^verbatim>\<open>score\<close> and the counter of the loop.
\<close>

definition positiveStep :: "string \<Rightarrow> string \<Rightarrow> int \<times> nat \<Rightarrow> int \<times> nat" where
  "positiveStep lowerContext pattern st =
     (if includesStr lowerContext pattern then (fst st + 1, snd st + 1) else st)"

definition negativeStep :: "string \<Rightarrow> string \<Rightarrow> int \<times> nat \<Rightarrow> int \<times> nat" where
  "negativeStep lowerContext pattern st =
     (if includesStr lowerContext pattern then (fst st - 1, snd st + 1) else st)"

text \<open>
  The score is a ratio of two integers of at most two digits, or \<open>0\<close>, \<open>1\<close>, \<open>-1\<close>. The
  double that the division returns is the one nearest to the ratio, and the literal
  \<^verbatim>\<open>0.2\<close> is the double nearest to \<open>1/5\<close>, so the comparisons with \<^verbatim>\<open>0.2\<close> and
  \<^verbatim>\<open>-0.2\<close> come out as they do on the exact ratios; the score is modelled as the
  exact ratio.
\<close>

definition analyzeSentiment :: "string \<Rightarrow> string \<Rightarrow> sentimentResult" where
  "analyzeSentiment context brand =
     (let lowerContext = toLowerCase context;
          afterPositive = fold (positiveStep lowerContext) positivePatterns (0, 0);
          matchedPositive = snd afterPositive;
          afterNegative = fold (negativeStep lowerContext) negativePatterns (fst afterPositive, 0);
          score = fst afterNegative;
          matchedNegative = snd afterNegative;
          totalMatches = matchedPositive + matchedNegative;
          normalizedScore =
            (if totalMatches > 0
             then max (- 1) (min 1 (real_of_int score / real (max (max matchedPositive matchedNegative) 1)))
             else 0);
          sentiment =
            (if normalizedScore > 1 / 5 then Positive
             else if normalizedScore < - (1 / 5) then Negative
             else Neutral)
      in \<lparr>sr_sentiment = sentiment, sr_score = normalizedScore\<rparr>)"

section \<open>GeminiService: recommendation\<close>

definition recommendPatterns :: "string \<Rightarrow> string list" where
  "recommendPatterns lowerBrand =
     [''recommend '' @ lowerBrand,
      lowerBrand @ '' is recommended'',
      ''suggest '' @ lowerBrand,
      lowerBrand @ '' is a great choice'',
      lowerBrand @ '' is ideal'',
      lowerBrand @ '' is perfect'',
      lowerBrand @ '' is the best'',
      ''top pick.*'' @ lowerBrand,
      lowerBrand @ ''.*top pick'',
      ''best.*'' @ lowerBrand,
      lowerBrand @ ''.*stands out'']"

text \<open>
  \<^verbatim>\<open>recommendPatterns.some(pattern => new RegExp(pattern, 'i').test(lowerText))\<close>: the
  patterns are compiled one after the other, up to the first that matches; the first
  that does not compile throws.
\<close>

fun someTest :: "regexp_builtin \<Rightarrow> string list \<Rightarrow> string \<Rightarrow> js_error + bool" where
  "someTest builtin [] s = Inr False"
| "someTest builtin (p # ps) s =
     (case regexTest builtin p s of
        Inl e \<Rightarrow> Inl e
      | Inr True \<Rightarrow> Inr True
      | Inr False \<Rightarrow> someTest builtin ps s)"

definition checkIfRecommended :: "regexp_builtin \<Rightarrow> string \<Rightarrow> string \<Rightarrow> js_error + bool" where
  "checkIfRecommended builtin text brand =
     (let lowerText = toLowerCase text;
          lowerBrand = toLowerCase brand
      in someTest builtin (recommendPatterns lowerBrand) lowerText)"

section \<open>GeminiService: brand mentions\<close>

text \<open>
  The \<^verbatim>\<open>position\<close> of a mention record: \<^verbatim>\<open>null\<close>, a rank, or an object that is not
  a number. The last arises because \<^verbatim>\<open>positionMap\<close> is a plain object: reading a key
  it does not own finds the property of that name on \<^verbatim>\<open>Object.prototype\<close>, and
  assigning a number to the key \<^verbatim>\<open>__proto__\<close> stores nothing.
\<close>

datatype position = PNull | PRank nat | PObject

record mention =
  m_brand :: string
  m_mentioned :: bool
  m_count :: nat
  m_position :: position
  m_context :: "string option"
  m_sentiment :: "sentiment option"
  m_sentimentScore :: "real option"
  m_isRecommended :: bool

definition mentionPattern :: "string \<Rightarrow> string" where
  "mentionPattern brand = [backslash, CHR ''b''] @ escapeRegex brand @ [backslash, CHR ''b'']"

record brandPosition =
  bp_brand :: string
  bp_firstIndex :: int

text \<open>First pass: the index of the first match of each brand, \<open>-1\<close> without a match.\<close>

fun firstIndices :: "regexp_builtin \<Rightarrow> string \<Rightarrow> string list \<Rightarrow> js_error + brandPosition list" where
  "firstIndices builtin text [] = Inr []"
| "firstIndices builtin text (brand # brands) =
     (case matchFirst builtin (mentionPattern brand) text of
        Inl e \<Rightarrow> Inl e
      | Inr match \<Rightarrow>
          (case firstIndices builtin text brands of
             Inl e \<Rightarrow> Inl e
           | Inr rest \<Rightarrow>
               Inr (\<lparr>bp_brand = brand,
                       bp_firstIndex = (case match of Some i \<Rightarrow> int i | None \<Rightarrow> - 1)\<rparr> # rest)))"

definition objectPrototypeKeys :: "string list" where
  "objectPrototypeKeys =
     [''__proto__'', ''constructor'', ''hasOwnProperty'', ''isPrototypeOf'',
      ''propertyIsEnumerable'', ''toLocaleString'', ''toString'', ''valueOf'',
      ''__defineGetter__'', ''__defineSetter__'', ''__lookupGetter__'', ''__lookupSetter__'']"

type_synonym positionMap = "string \<rightharpoonup> nat"

text \<open>\<^verbatim>\<open>positionMap[key] = v\<close> for a number \<open>v\<close>.\<close>

definition setPosition :: "positionMap \<Rightarrow> string \<Rightarrow> nat \<Rightarrow> positionMap" where
  "setPosition m key v = (if key = ''__proto__'' then m else m(key \<mapsto> v))"

text \<open>\<^verbatim>\<open>positionMap[key] || null\<close>.\<close>

definition getPosition :: "positionMap \<Rightarrow> string \<Rightarrow> position" where
  "getPosition m key =
     (if key = ''__proto__'' then PObject
      else case m key of
             Some v \<Rightarrow> if v = 0 then PNull else PRank v
           | None \<Rightarrow> if key \<in> set objectPrototypeKeys then PObject else PNull)"

text \<open>\<^verbatim>\<open>brandPositions.forEach((item, index) => { positionMap[item.brand] = index + 1; })\<close>\<close>

definition buildPositionMap :: "brandPosition list \<Rightarrow> positionMap" where
  "buildPositionMap items =
     fold (\<lambda>(item, index) m. setPosition m (bp_brand item) (index + 1))
       (zip items [0 ..< length items]) Map.empty"

text \<open>
  \<^verbatim>\<open>Array.prototype.sort\<close> is stable, and so is \<^const>\<open>sort_key\<close>: brands with the
  same first index keep the order of the brand list.
\<close>

definition brandPositions :: "brandPosition list \<Rightarrow> brandPosition list" where
  "brandPositions found = sort_key bp_firstIndex (filter (\<lambda>b. bp_firstIndex b \<noteq> - 1) found)"

text \<open>Second pass, one brand: the body of the loop.\<close>

definition mentionFor :: "regexp_builtin \<Rightarrow> string \<Rightarrow> positionMap \<Rightarrow> string \<Rightarrow> js_error + mention" where
  "mentionFor builtin text pm brand =
     (case matchAllIndices builtin (mentionPattern brand) text of
        Inl e \<Rightarrow> Inl e
      | Inr [] \<Rightarrow>
          Inr \<lparr>m_brand = brand, m_mentioned = False, m_count = 0, m_position = PNull,
               m_context = None, m_sentiment = None, m_sentimentScore = None,
               m_isRecommended = False\<rparr>
      | Inr (firstMatch # others) \<Rightarrow>
          (let contextStart = nat (max 0 (int firstMatch - 150));
               contextEnd = min (length text) (firstMatch + length brand + 150);
               context = trim (slice text contextStart contextEnd);
               sentimentResult = analyzeSentiment context brand
           in case checkIfRecommended builtin text brand of
                Inl e \<Rightarrow> Inl e
              | Inr isRecommended \<Rightarrow>
                  Inr \<lparr>m_brand = brand, m_mentioned = True, m_count = length (firstMatch # others),
                       m_position = getPosition pm brand,
                       m_context = Some context,
                       m_sentiment = Some (sr_sentiment sentimentResult),
                       m_sentimentScore = Some (sr_score sentimentResult),
                       m_isRecommended = isRecommended\<rparr>))"

fun mentionsFor :: "regexp_builtin \<Rightarrow> string \<Rightarrow> positionMap \<Rightarrow> string list \<Rightarrow> js_error + mention list" where
  "mentionsFor builtin text pm [] = Inr []"
| "mentionsFor builtin text pm (brand # brands) =
     (case mentionFor builtin text pm brand of
        Inl e \<Rightarrow> Inl e
      | Inr m \<Rightarrow>
          (case mentionsFor builtin text pm brands of
             Inl e \<Rightarrow> Inl e
           | Inr ms \<Rightarrow> Inr (m # ms)))"

definition extractBrandMentions :: "regexp_builtin \<Rightarrow> string \<Rightarrow> string list \<Rightarrow> js_error + mention list" where
  "extractBrandMentions builtin text brands =
     (case firstIndices builtin text brands of
        Inl e \<Rightarrow> Inl e
      | Inr found \<Rightarrow> mentionsFor builtin text (buildPositionMap (brandPositions found)) brands)"

section \<open>GeminiService: citations\<close>

record web =
  w_uri :: string
  w_title :: "string option"

record chunk =
  ch_web :: "web option"

record segment =
  sg_startIndex :: "nat option"

record support =
  sp_segment :: "segment option"

text \<open>
  The grounding metadata of a response of the provider follows the provider's schema:
  the elements of its arrays are objects.
\<close>

record groundingMetadata =
  gm_groundingChunks :: "chunk list option"
  gm_groundingSupports :: "support list option"
  gm_webSearchQueries :: "string list option"

text \<open>
  What \<^verbatim>\<open>extractCitations\<close> reads of its argument, whatever the caller: the two
  arrays, of which an element may be \<^verbatim>\<open>null\<close>, which is \<open>None\<close> here.
\<close>

record metadataValue =
  mv_groundingChunks :: "chunk option list option"
  mv_groundingSupports :: "support option list option"

definition asValue :: "groundingMetadata \<Rightarrow> metadataValue" where
  "asValue g =
     \<lparr>mv_groundingChunks = map_option (map Some) (gm_groundingChunks g),
      mv_groundingSupports = map_option (map Some) (gm_groundingSupports g)\<rparr>"

record citation =
  ct_url :: string
  ct_title :: string
  ct_domain :: string

subsection \<open>The URL built-in\<close>

text \<open>
  \<^verbatim>\<open>new URL(url).hostname\<close> on the URLs that consist of a scheme of ASCII letters,
  \<^verbatim>\<open>://\<close>, a host of non-empty labels of ASCII letters separated by dots, and then
  nothing or a path that begins with \<^verbatim>\<open>/\<close>. \<open>simpleUrl url\<close> is the scheme and the
  host of such a URL as they are written.
\<close>

definition isAsciiLetter :: "char \<Rightarrow> bool" where
  "isAsciiLetter c = (let n = codeUnit c in (65 \<le> n \<and> n \<le> 90) \<or> (97 \<le> n \<and> n \<le> 122))"

definition isHostChar :: "char \<Rightarrow> bool" where
  "isHostChar c = (isAsciiLetter c \<or> c = CHR ''.'')"

definition letterLabels :: "string \<Rightarrow> bool" where
  "letterLabels host =
     (host \<noteq> [] \<and> hd host \<noteq> CHR ''.'' \<and> last host \<noteq> CHR ''.'' \<and> \<not> includesStr host ''..'')"

definition simpleUrl :: "string \<Rightarrow> (string \<times> string) option" where
  "simpleUrl url =
     (let scheme = takeWhile isAsciiLetter url;
          afterScheme = dropWhile isAsciiLetter url;
          host = takeWhile isHostChar (drop 3 afterScheme);
          afterHost = dropWhile isHostChar (drop 3 afterScheme)
      in if scheme \<noteq> [] \<and> prefix ''://'' afterScheme \<and> letterLabels host \<and>
            (afterHost = [] \<or> hd afterHost = CHR ''/'')
         then Some (scheme, host) else None)"

text \<open>
  The schemes whose host the parser reads as a domain name and serialises in lower
  case; \<^verbatim>\<open>file\<close> is one of them too, with rules of its own for the host.
\<close>

definition specialSchemes :: "string list" where
  "specialSchemes = [''http'', ''https'', ''ws'', ''wss'', ''ftp'']"

text \<open>
  The parser on every other URL is a parameter: \<open>builtin url\<close> is
  \<^verbatim>\<open>new URL(url).hostname\<close>, and \<open>None\<close> when the constructor throws.
\<close>

type_synonym url_builtin = "string \<Rightarrow> string option"

text \<open>
  The scheme is case-insensitive. The host of a special scheme is lower-cased; the host
  of any other scheme is opaque and kept as written. A string without a colon has no
  scheme, and the constructor throws.
\<close>

definition urlHostname :: "url_builtin \<Rightarrow> string \<Rightarrow> string option" where
  "urlHostname builtin url =
     (case simpleUrl url of
        Some (scheme, host) \<Rightarrow>
          if toLowerCase scheme \<in> set specialSchemes then Some (toLowerCase host)
          else if toLowerCase scheme = ''file'' then builtin url
          else Some host
      | None \<Rightarrow> if CHR '':'' \<in> set url then builtin url else None)"

subsection \<open>extractDomain and extractCitations\<close>

text \<open>\<^verbatim>\<open>hostname.replace(/^www\./, '')\<close>: the pattern is case-sensitive.\<close>

definition stripWww :: "string \<Rightarrow> string" where
  "stripWww hostname = (if prefix ''www.'' hostname then drop 4 hostname else hostname)"

text \<open>The stripped host name inside \<^verbatim>\<open>try\<close>, the URL itself in \<^verbatim>\<open>catch\<close>.\<close>

definition extractDomain :: "url_builtin \<Rightarrow> string \<Rightarrow> string" where
  "extractDomain builtin url =
     (case urlHostname builtin url of
        Some hostname \<Rightarrow> stripWww hostname
      | None \<Rightarrow> url)"

text \<open>The \<^verbatim>\<open>TypeError\<close> of reading a property of \<^verbatim>\<open>null\<close>.\<close>

definition nullProperty :: "string \<Rightarrow> js_error" where
  "nullProperty name =
     Failure (''Cannot read properties of null (reading '' @ [CHR 0x27] @ name @ [CHR 0x27] @ '')'')"

text \<open>
  The body of the loop over the chunks, for a chunk that is an object; its state is
  \<^verbatim>\<open>seenUrls\<close> and \<^verbatim>\<open>citations\<close>.
\<close>

definition citationStep :: "url_builtin \<Rightarrow> chunk \<Rightarrow> string set \<times> citation list \<Rightarrow> string set \<times> citation list" where
  "citationStep builtin c st =
     (case ch_web c of
        None \<Rightarrow> st
      | Some w \<Rightarrow>
          if w_uri w \<notin> fst st
          then (insert (w_uri w) (fst st),
                snd st @ [\<lparr>ct_url = w_uri w,
                            ct_title = (case w_title w of Some t \<Rightarrow> t | None \<Rightarrow> []),
                            ct_domain = extractDomain builtin (w_uri w)\<rparr>])
          else st)"

text \<open>The loop over the chunks: \<^verbatim>\<open>chunk.web\<close> throws when the chunk is \<^verbatim>\<open>null\<close>.\<close>

fun chunkLoop ::
  "url_builtin \<Rightarrow> chunk option list \<Rightarrow> string set \<times> citation list
     \<Rightarrow> js_error + string set \<times> citation list" where
  "chunkLoop builtin [] st = Inr st"
| "chunkLoop builtin (None # cs) st = Inl (nullProperty ''web'')"
| "chunkLoop builtin (Some c # cs) st = chunkLoop builtin cs (citationStep builtin c st)"

text \<open>
  The loop over the supports: \<^verbatim>\<open>support.segment\<close> throws when the support is
  \<^verbatim>\<open>null\<close>, and the body does nothing in either branch of its test.
\<close>

fun supportLoop :: "support option list \<Rightarrow> js_error + unit" where
  "supportLoop [] = Inr ()"
| "supportLoop (None # ss) = Inl (nullProperty ''segment'')"
| "supportLoop (Some sp # ss) =
     (if (case sp_segment sp of None \<Rightarrow> None | Some g \<Rightarrow> sg_startIndex g) \<noteq> None
      then supportLoop ss
      else supportLoop ss)"

text \<open>\<^verbatim>\<open>groundingMetadata.groundingChunks || []\<close> and the same for the supports.\<close>

definition chunksOf :: "metadataValue \<Rightarrow> chunk option list" where
  "chunksOf g = (case mv_groundingChunks g of Some cs \<Rightarrow> cs | None \<Rightarrow> [])"

definition supportsOf :: "metadataValue \<Rightarrow> support option list" where
  "supportsOf g = (case mv_groundingSupports g of Some ss \<Rightarrow> ss | None \<Rightarrow> [])"

definition extractCitations :: "url_builtin \<Rightarrow> metadataValue option \<Rightarrow> js_error + citation list" where
  "extractCitations builtin groundingMetadata =
     (case groundingMetadata of
        None \<Rightarrow> Inr []
      | Some g \<Rightarrow>
          (case chunkLoop builtin (chunksOf g) ({}, []) of
             Inl e \<Rightarrow> Inl e
           | Inr (seenUrls, citations) \<Rightarrow>
               (case supportLoop (supportsOf g) of
                  Inl e \<Rightarrow> Inl e
                | Inr u \<Rightarrow> Inr citations)))"

section \<open>GeminiService: analyzePrompt\<close>

record providerResponse =
  resp_text :: string
  resp_groundingMetadata :: "groundingMetadata option"

text \<open>
  What lies outside the program: the RegExp and URL built-ins, the model
  (\<open>generateContent env n prompt\<close> is the outcome of the \<open>n\<close>-th request, a response or
  the error thrown), the latency the \<open>n\<close>-th request measures, the faults of the database
  (\<open>dbFault env k = Some m\<close>: the \<open>k\<close>-th call of the database client throws an error of
  message \<open>m\<close>) and the clock.
\<close>

record env =
  regexp :: regexp_builtin
  hostnameOf :: url_builtin
  generateContent :: "nat \<Rightarrow> string \<Rightarrow> js_error + providerResponse"
  elapsedMs :: "nat \<Rightarrow> nat"
  dbFault :: "nat \<Rightarrow> string option"
  clock :: "nat \<Rightarrow> nat"

record analysisResult =
  a_success :: bool
  a_prompt :: string
  a_response :: "string option"
  a_responseLength :: "nat option"
  a_processingTimeMs :: nat
  a_error :: "string option"
  a_mentions :: "mention list"
  a_citations :: "citation list"
  a_searchQueries :: "string list option"

definition unmentioned :: "string \<Rightarrow> mention" where
  "unmentioned brand =
     \<lparr>m_brand = brand, m_mentioned = False, m_count = 0, m_position = PNull,
      m_context = None, m_sentiment = None, m_sentimentScore = None, m_isRecommended = False\<rparr>"

text \<open>The object the \<^verbatim>\<open>catch\<close> of \<^verbatim>\<open>analyzePrompt\<close> returns.\<close>

definition failureResult :: "env \<Rightarrow> nat \<Rightarrow> string \<Rightarrow> string list \<Rightarrow> js_error \<Rightarrow> analysisResult" where
  "failureResult env n prompt brands error =
     \<lparr>a_success = False, a_prompt = prompt, a_response = None, a_responseLength = None,
      a_processingTimeMs = elapsedMs env n, a_error = Some (message error),
      a_mentions = map unmentioned brands, a_citations = [], a_searchQueries = None\<rparr>"

definition analyzePrompt :: "env \<Rightarrow> nat \<Rightarrow> string \<Rightarrow> string list \<Rightarrow> analysisResult" where
  "analyzePrompt env n prompt brands =
     (case generateContent env n prompt of
        Inl error \<Rightarrow> failureResult env n prompt brands error
      | Inr response \<Rightarrow>
          (let text = resp_text response;
               groundingMetadata = resp_groundingMetadata response
           in case extractBrandMentions (regexp env) text brands of
                Inl error \<Rightarrow> failureResult env n prompt brands error
              | Inr mentions \<Rightarrow>
                  (case extractCitations (hostnameOf env) (map_option asValue groundingMetadata) of
                     Inl error \<Rightarrow> failureResult env n prompt brands error
                   | Inr citations \<Rightarrow>
                       \<lparr>a_success = True, a_prompt = prompt, a_response = Some text,
                        a_responseLength = Some (length text),
                        a_processingTimeMs = elapsedMs env n, a_error = None,
                        a_mentions = mentions,
                        a_citations = citations,
                        a_searchQueries =
                          Some (case groundingMetadata of
                                  None \<Rightarrow> []
                                | Some g \<Rightarrow> (case gm_webSearchQueries g of Some qs \<Rightarrow> qs | None \<Rightarrow> []))\<rparr>)))"

section \<open>Persistence\<close>

record brand =
  b_id :: string
  b_name :: string

record prompt =
  p_id :: string
  p_text :: string
  p_isActive :: bool

record project =
  pj_brands :: "brand list"
  pj_prompts :: "prompt list"

datatype runStatus = Pending | Processing | Completed | Failed

record analysisRun =
  ar_status :: runStatus
  ar_totalPrompts :: "nat option"
  ar_processedPrompts :: nat
  ar_startedAt :: "nat option"
  ar_completedAt :: "nat option"

record promptResult =
  r_id :: nat
  r_analysisRunId :: string
  r_promptId :: string
  r_rawResponse :: "string option"
  r_responseLength :: "nat option"
  r_processingTimeMs :: "nat option"
  r_error :: "string option"

record brandMention =
  bm_promptResultId :: nat
  bm_brandId :: string
  bm_position :: "nat option"
  bm_sentiment :: "sentiment option"
  bm_sentimentScore :: "real option"
  bm_contextSnippet :: "string option"
  bm_isRecommended :: bool

record citationRow =
  ci_promptResultId :: nat
  ci_url :: string
  ci_domain :: string
  ci_title :: "string option"

record metricsSnapshot =
  ms_id :: nat
  ms_analysisRunId :: string
  ms_brandId :: string
  ms_visibilityScore :: "real option"
  ms_mentionCount :: nat
  ms_citationCount :: nat
  ms_shareOfVoice :: "real option"
  ms_averagePosition :: "real option"
  ms_positiveMentions :: nat
  ms_neutralMentions :: nat
  ms_negativeMentions :: nat
  ms_averageSentiment :: "real option"
  ms_recommendationCount :: nat
  ms_firstPositionCount :: nat

text \<open>What the progress callback receives.\<close>

datatype event = Progress nat nat string | Complete string

text \<open>
  The state a run works on: the tables, the next fresh row id, the number of calls made
  to the database client, and the events the progress callback has received.
\<close>

record state =
  s_projects :: "string \<rightharpoonup> project"
  s_runs :: "string \<rightharpoonup> analysisRun"
  s_promptResults :: "promptResult list"
  s_brandMentions :: "brandMention list"
  s_citations :: "citationRow list"
  s_snapshots :: "metricsSnapshot list"
  s_nextId :: nat
  s_calls :: nat
  s_events :: "event list"

text \<open>
  An awaited call either returns a value or throws; the state it leaves behind stays
  either way.
\<close>

type_synonym 'a io = "state \<Rightarrow> (js_error + 'a) \<times> state"

definition prismaCall :: "env \<Rightarrow> (state \<Rightarrow> js_error + 'a \<times> state) \<Rightarrow> 'a io" where
  "prismaCall env operation st =
     (let st1 = st\<lparr>s_calls := s_calls st + 1\<rparr>
      in case dbFault env (s_calls st) of
           Some m \<Rightarrow> (Inl (Failure m), st1)
         | None \<Rightarrow>
             (case operation st1 of
                Inl e \<Rightarrow> (Inl e, st1)
              | Inr (a, st2) \<Rightarrow> (Inr a, st2)))"

text \<open>A \<^verbatim>\<open>for ... of\<close> loop whose body awaits: it stops at the first throw.\<close>

fun forEach :: "('a \<Rightarrow> unit io) \<Rightarrow> 'a list \<Rightarrow> unit io" where
  "forEach body [] st = (Inr (), st)"
| "forEach body (x # xs) st =
     (case body x st of
        (Inl e, st1) \<Rightarrow> (Inl e, st1)
      | (Inr u, st1) \<Rightarrow> forEach body xs st1)"

text \<open>\<^verbatim>\<open>project.findUnique\<close> with the brands and the active prompts.\<close>

definition findProject :: "string \<Rightarrow> state \<Rightarrow> js_error + project option \<times> state" where
  "findProject projectId st =
     Inr (map_option (\<lambda>p. p\<lparr>pj_prompts := filter p_isActive (pj_prompts p)\<rparr>) (s_projects st projectId),
          st)"

text \<open>\<^verbatim>\<open>analysisRun.update\<close>: throws when there is no such run.\<close>

definition updateRun :: "string \<Rightarrow> (analysisRun \<Rightarrow> analysisRun) \<Rightarrow> state \<Rightarrow> js_error + unit \<times> state" where
  "updateRun runId f st =
     (case s_runs st runId of
        None \<Rightarrow> Inl (Failure ''Record to update not found.'')
      | Some r \<Rightarrow> Inr ((), st\<lparr>s_runs := (s_runs st)(runId \<mapsto> f r)\<rparr>))"

text \<open>\<^verbatim>\<open>promptResult.create\<close>: the row gets a fresh id and is returned.\<close>

definition createPromptResult :: "promptResult \<Rightarrow> state \<Rightarrow> js_error + promptResult \<times> state" where
  "createPromptResult d st =
     (let row = d\<lparr>r_id := s_nextId st\<rparr>
      in Inr (row, st\<lparr>s_promptResults := s_promptResults st @ [row],
                       s_nextId := s_nextId st + 1\<rparr>))"

text \<open>
  \<^verbatim>\<open>brandMention.create\<close>: the column \<^verbatim>\<open>position\<close> is a nullable integer, and the
  client rejects a value that is neither. The absent properties of a record of the
  failure list are stored as \<^verbatim>\<open>null\<close> and \<^verbatim>\<open>false\<close>.
\<close>

definition createBrandMention :: "nat \<Rightarrow> string \<Rightarrow> mention \<Rightarrow> state \<Rightarrow> js_error + unit \<times> state" where
  "createBrandMention promptResultId brandId m st =
     (case m_position m of
        PObject \<Rightarrow> Inl (Failure ''Invalid value provided for position'')
      | PNull \<Rightarrow>
          Inr ((), st\<lparr>s_brandMentions := s_brandMentions st @
                 [\<lparr>bm_promptResultId = promptResultId, bm_brandId = brandId, bm_position = None,
                   bm_sentiment = m_sentiment m, bm_sentimentScore = m_sentimentScore m,
                   bm_contextSnippet = m_context m, bm_isRecommended = m_isRecommended m\<rparr>]\<rparr>)
      | PRank k \<Rightarrow>
          Inr ((), st\<lparr>s_brandMentions := s_brandMentions st @
                 [\<lparr>bm_promptResultId = promptResultId, bm_brandId = brandId, bm_position = Some k,
                   bm_sentiment = m_sentiment m, bm_sentimentScore = m_sentimentScore m,
                   bm_contextSnippet = m_context m, bm_isRecommended = m_isRecommended m\<rparr>]\<rparr>))"

definition createCitation :: "citationRow \<Rightarrow> state \<Rightarrow> js_error + unit \<times> state" where
  "createCitation row st = Inr ((), st\<lparr>s_citations := s_citations st @ [row]\<rparr>)"

section \<open>AnalysisRunner: the loop over the prompts\<close>

text \<open>\<^verbatim>\<open>x || null\<close> on a string and on a number.\<close>

definition stringOrNull :: "string option \<Rightarrow> string option" where
  "stringOrNull x = (case x of Some [] \<Rightarrow> None | y \<Rightarrow> y)"

definition numberOrNull :: "nat option \<Rightarrow> nat option" where
  "numberOrNull x = (case x of Some 0 \<Rightarrow> None | y \<Rightarrow> y)"

text \<open>
  One element of \<^verbatim>\<open>results\<close>: \<^verbatim>\<open>{ promptId, success: true, ...result }\<close>, where the
  spread overwrites \<^verbatim>\<open>success\<close> with that of the result, or
  \<^verbatim>\<open>{ promptId, success: false, error }\<close>.
\<close>

record resultEntry =
  re_promptId :: string
  re_success :: bool
  re_error :: "string option"
  re_result :: "analysisResult option"

definition saveMention :: "env \<Rightarrow> project \<Rightarrow> nat \<Rightarrow> mention \<Rightarrow> unit io" where
  "saveMention env project promptResultId m st =
     (case find (\<lambda>b. b_name b = m_brand m) (pj_brands project) of
        None \<Rightarrow> (Inr (), st)
      | Some b \<Rightarrow> prismaCall env (createBrandMention promptResultId (b_id b) m) st)"

definition saveCitation :: "env \<Rightarrow> nat \<Rightarrow> citation \<Rightarrow> unit io" where
  "saveCitation env promptResultId c st =
     prismaCall env
       (createCitation \<lparr>ci_promptResultId = promptResultId, ci_url = ct_url c,
                        ci_domain = ct_domain c, ci_title = stringOrNull (Some (ct_title c))\<rparr>) st"

text \<open>
  The \<^verbatim>\<open>try\<close> block of the loop body for the prompt of index \<open>i\<close>. It returns whether
  it threw, the array \<^verbatim>\<open>results\<close> and the state.
\<close>

definition tryBlock ::
  "env \<Rightarrow> bool \<Rightarrow> project \<Rightarrow> string \<Rightarrow> nat \<Rightarrow> nat \<Rightarrow> prompt \<Rightarrow> resultEntry list \<Rightarrow> state
     \<Rightarrow> (js_error + unit) \<times> resultEntry list \<times> state" where
  "tryBlock env onProgress project runId totalPrompts i p results st =
     (let brandNames = map b_name (pj_brands project);
          result = analyzePrompt env i (p_text p) brandNames
      in case prismaCall env
                (createPromptResult
                   \<lparr>r_id = 0, r_analysisRunId = runId, r_promptId = p_id p,
                    r_rawResponse = stringOrNull (a_response result),
                    r_responseLength = numberOrNull (a_responseLength result),
                    r_processingTimeMs = Some (a_processingTimeMs result),
                    r_error = stringOrNull (a_error result)\<rparr>) st of
           (Inl e, st1) \<Rightarrow> (Inl e, results, st1)
         | (Inr created, st1) \<Rightarrow>
             (case (if a_mentions result \<noteq> []
                    then forEach (saveMention env project (r_id created)) (a_mentions result) st1
                    else (Inr (), st1)) of
                (Inl e, st2) \<Rightarrow> (Inl e, results, st2)
              | (Inr u, st2) \<Rightarrow>
                  (case (if a_citations result \<noteq> []
                         then forEach (saveCitation env (r_id created)) (a_citations result) st2
                         else (Inr (), st2)) of
                     (Inl e, st3) \<Rightarrow> (Inl e, results, st3)
                   | (Inr u, st3) \<Rightarrow>
                       (let results1 = results @
                              [\<lparr>re_promptId = p_id p, re_success = a_success result,
                                re_error = a_error result, re_result = Some result\<rparr>]
                        in case prismaCall env
                                  (updateRun runId (\<lambda>r. r\<lparr>ar_processedPrompts := i + 1\<rparr>)) st3 of
                             (Inl e, st4) \<Rightarrow> (Inl e, results1, st4)
                           | (Inr u, st4) \<Rightarrow>
                               (Inr (), results1,
                                if onProgress
                                then st4\<lparr>s_events := s_events st4 @ [Progress (i + 1) totalPrompts (p_text p)]\<rparr>
                                else st4)))))"

text \<open>The \<^verbatim>\<open>catch\<close> block; an error thrown in it leaves \<^verbatim>\<open>runAnalysis\<close>.\<close>

definition catchBlock ::
  "env \<Rightarrow> string \<Rightarrow> prompt \<Rightarrow> js_error \<Rightarrow> resultEntry list \<Rightarrow> state
     \<Rightarrow> (js_error + unit) \<times> resultEntry list \<times> state" where
  "catchBlock env runId p error results st =
     (case prismaCall env
             (createPromptResult
                \<lparr>r_id = 0, r_analysisRunId = runId, r_promptId = p_id p,
                 r_rawResponse = None, r_responseLength = None, r_processingTimeMs = None,
                 r_error = Some (message error)\<rparr>) st of
        (Inl e, st1) \<Rightarrow> (Inl e, results, st1)
      | (Inr created, st1) \<Rightarrow>
          (Inr (),
           results @ [\<lparr>re_promptId = p_id p, re_success = False,
                        re_error = Some (message error), re_result = None\<rparr>],
           st1))"

fun promptLoop ::
  "env \<Rightarrow> bool \<Rightarrow> project \<Rightarrow> string \<Rightarrow> nat \<Rightarrow> nat \<Rightarrow> prompt list \<Rightarrow> resultEntry list \<Rightarrow> state
     \<Rightarrow> (js_error + resultEntry list) \<times> state" where
  "promptLoop env onProgress project runId totalPrompts i [] results st = (Inr results, st)"
| "promptLoop env onProgress project runId totalPrompts i (p # ps) results st =
     (case tryBlock env onProgress project runId totalPrompts i p results st of
        (Inr u, results1, st1) \<Rightarrow>
          promptLoop env onProgress project runId totalPrompts (i + 1) ps results1 st1
      | (Inl error, results1, st1) \<Rightarrow>
          (case catchBlock env runId p error results1 st1 of
             (Inl e, results2, st2) \<Rightarrow> (Inl e, st2)
           | (Inr u, results2, st2) \<Rightarrow>
               promptLoop env onProgress project runId totalPrompts (i + 1) ps results2 st2))"

section \<open>AnalysisRunner: calculateMetrics\<close>

text \<open>A prompt result with its mentions and citations included.\<close>

record joinedResult =
  jr_result :: promptResult
  jr_brandMentions :: "brandMention list"
  jr_citations :: "citationRow list"

definition findPromptResults :: "string \<Rightarrow> state \<Rightarrow> js_error + joinedResult list \<times> state" where
  "findPromptResults runId st =
     Inr (map (\<lambda>r. \<lparr>jr_result = r,
                      jr_brandMentions = filter (\<lambda>m. bm_promptResultId m = r_id r) (s_brandMentions st),
                      jr_citations = filter (\<lambda>c. ci_promptResultId c = r_id r) (s_citations st)\<rparr>)
            (filter (\<lambda>r. r_analysisRunId r = runId) (s_promptResults st)),
          st)"

text \<open>\<^verbatim>\<open>!r.error\<close>: the error is \<^verbatim>\<open>null\<close> or the empty string.\<close>

definition noError :: "joinedResult \<Rightarrow> bool" where
  "noError r = (case r_error (jr_result r) of None \<Rightarrow> True | Some m \<Rightarrow> m = [])"

text \<open>
  The values of one brand, as the loop body computes them. Numbers are modelled
  exactly: counts as naturals, quotients as reals.
\<close>

definition brandMetrics :: "string \<Rightarrow> joinedResult list \<Rightarrow> brand \<Rightarrow> metricsSnapshot" where
  "brandMetrics runId validResults b =
     (let brandMentions =
            concat (map (\<lambda>r. filter (\<lambda>m. bm_brandId m = b_id b) (jr_brandMentions r)) validResults);
          mentionedResults = filter (\<lambda>m. bm_position m \<noteq> None) brandMentions;
          mentionCount = length mentionedResults;
          visibilityScore =
            (if length validResults > 0
             then real mentionCount / real (length validResults) * 100
             else 0);
          positions = List.map_filter bm_position mentionedResults;
          averagePosition =
            (if length positions > 0
             then Some (real (fold (\<lambda>b a. a + b) positions 0) / real (length positions))
             else None);
          firstPositionCount = length (filter (\<lambda>p. p = 1) positions);
          positiveMentions = length (filter (\<lambda>m. bm_sentiment m = Some Positive) mentionedResults);
          neutralMentions = length (filter (\<lambda>m. bm_sentiment m = Some Neutral) mentionedResults);
          negativeMentions = length (filter (\<lambda>m. bm_sentiment m = Some Negative) mentionedResults);
          sentimentScores = List.map_filter bm_sentimentScore mentionedResults;
          averageSentiment =
            (if length sentimentScores > 0
             then Some (fold (\<lambda>b a. a + b) sentimentScores 0 / real (length sentimentScores))
             else None);
          recommendationCount = length (filter bm_isRecommended mentionedResults);
          citationCount =
            fold (\<lambda>r sum. sum + length (jr_citations r))
              (filter (\<lambda>r. list_ex (\<lambda>m. bm_brandId m = b_id b \<and> bm_position m \<noteq> None)
                                 (jr_brandMentions r)) validResults) 0
      in \<lparr>ms_id = 0, ms_analysisRunId = runId, ms_brandId = b_id b,
          ms_visibilityScore = Some visibilityScore, ms_mentionCount = mentionCount,
          ms_citationCount = citationCount, ms_shareOfVoice = None,
          ms_averagePosition = averagePosition, ms_positiveMentions = positiveMentions,
          ms_neutralMentions = neutralMentions, ms_negativeMentions = negativeMentions,
          ms_averageSentiment = averageSentiment, ms_recommendationCount = recommendationCount,
          ms_firstPositionCount = firstPositionCount\<rparr>)"

text \<open>
  \<^verbatim>\<open>metricsSnapshot.upsert\<close> on the unique pair of run and brand. Neither \<^verbatim>\<open>create\<close>
  nor \<^verbatim>\<open>update\<close> names \<^verbatim>\<open>shareOfVoice\<close>: a created row has the column's default,
  which the schema leaves \<^verbatim>\<open>NULL\<close>, and an updated row keeps the value it had.
\<close>

definition sameKey :: "metricsSnapshot \<Rightarrow> metricsSnapshot \<Rightarrow> bool" where
  "sameKey d s = (ms_analysisRunId s = ms_analysisRunId d \<and> ms_brandId s = ms_brandId d)"

definition upsertSnapshot :: "metricsSnapshot \<Rightarrow> state \<Rightarrow> js_error + unit \<times> state" where
  "upsertSnapshot d st =
     (if list_ex (sameKey d) (s_snapshots st)
      then Inr ((), st\<lparr>s_snapshots :=
                  map (\<lambda>s. if sameKey d s
                            then d\<lparr>ms_id := ms_id s, ms_shareOfVoice := ms_shareOfVoice s\<rparr>
                            else s) (s_snapshots st)\<rparr>)
      else Inr ((), st\<lparr>s_snapshots := s_snapshots st @ [d\<lparr>ms_id := s_nextId st, ms_shareOfVoice := None\<rparr>],
                       s_nextId := s_nextId st + 1\<rparr>))"

text \<open>
  \<^verbatim>\<open>metricsSnapshot.aggregate\<close> with \<^verbatim>\<open>_sum: { mentionCount: true }\<close>: the sum over
  the snapshots of the run, \<^verbatim>\<open>null\<close> when there is none.
\<close>

definition sumMentionCount :: "string \<Rightarrow> state \<Rightarrow> js_error + nat option \<times> state" where
  "sumMentionCount runId st =
     (let rows = filter (\<lambda>s. ms_analysisRunId s = runId) (s_snapshots st)
      in Inr (if rows = [] then None else Some (sum_list (map ms_mentionCount rows)), st))"

definition findSnapshots :: "string \<Rightarrow> state \<Rightarrow> js_error + metricsSnapshot list \<times> state" where
  "findSnapshots runId st = Inr (filter (\<lambda>s. ms_analysisRunId s = runId) (s_snapshots st), st)"

definition updateShareOfVoice :: "nat \<Rightarrow> real \<Rightarrow> state \<Rightarrow> js_error + unit \<times> state" where
  "updateShareOfVoice snapshotId v st =
     (if list_ex (\<lambda>s. ms_id s = snapshotId) (s_snapshots st)
      then Inr ((), st\<lparr>s_snapshots :=
                  map (\<lambda>s. if ms_id s = snapshotId then s\<lparr>ms_shareOfVoice := Some v\<rparr> else s)
                    (s_snapshots st)\<rparr>)
      else Inl (Failure ''Record to update not found.''))"

definition calculateMetrics :: "env \<Rightarrow> string \<Rightarrow> project \<Rightarrow> unit io" where
  "calculateMetrics env runId project st =
     (case prismaCall env (findPromptResults runId) st of
        (Inl e, st1) \<Rightarrow> (Inl e, st1)
      | (Inr promptResults, st1) \<Rightarrow>
          (let validResults = filter noError promptResults
           in case forEach (\<lambda>b. prismaCall env (upsertSnapshot (brandMetrics runId validResults b)))
                     (pj_brands project) st1 of
                (Inl e, st2) \<Rightarrow> (Inl e, st2)
              | (Inr u, st2) \<Rightarrow>
                  (case prismaCall env (sumMentionCount runId) st2 of
                     (Inl e, st3) \<Rightarrow> (Inl e, st3)
                   | (Inr totalMentions, st3) \<Rightarrow>
                       (let totalCount = (case totalMentions of Some k \<Rightarrow> k | None \<Rightarrow> 0)
                        in if totalCount > 0
                           then (case prismaCall env (findSnapshots runId) st3 of
                                   (Inl e, st4) \<Rightarrow> (Inl e, st4)
                                 | (Inr found, st4) \<Rightarrow>
                                     forEach
                                       (\<lambda>snapshot.
                                          prismaCall env
                                            (updateShareOfVoice (ms_id snapshot)
                                               (real (ms_mentionCount snapshot) / real totalCount * 100)))
                                       found st4)
                           else (Inr (), st3)))))"

section \<open>AnalysisRunner: runAnalysis\<close>

definition runAnalysis ::
  "env \<Rightarrow> bool \<Rightarrow> string \<Rightarrow> string \<Rightarrow> state \<Rightarrow> (js_error + resultEntry list) \<times> state" where
  "runAnalysis env onProgress projectId runId st =
     (case prismaCall env (findProject projectId) st of
        (Inl e, st1) \<Rightarrow> (Inl e, st1)
      | (Inr None, st1) \<Rightarrow> (Inl (Failure ''Project not found''), st1)
      | (Inr (Some project), st1) \<Rightarrow>
          (let prompts = pj_prompts project
           in case prismaCall env
                     (updateRun runId
                        (\<lambda>r. r\<lparr>ar_status := Processing, ar_totalPrompts := Some (length prompts),
                                ar_startedAt := Some (clock env (s_calls st1))\<rparr>)) st1 of
                (Inl e, st2) \<Rightarrow> (Inl e, st2)
              | (Inr u, st2) \<Rightarrow>
                  (case promptLoop env onProgress project runId (length prompts) 0 prompts [] st2 of
                     (Inl e, st3) \<Rightarrow> (Inl e, st3)
                   | (Inr results, st3) \<Rightarrow>
                       (case calculateMetrics env runId project st3 of
                          (Inl e, st4) \<Rightarrow> (Inl e, st4)
                        | (Inr u, st4) \<Rightarrow>
                            (case prismaCall env
                                    (updateRun runId
                                       (\<lambda>r. r\<lparr>ar_status := Completed,
                                               ar_completedAt := Some (clock env (s_calls st4))\<rparr>)) st4 of
                               (Inl e, st5) \<Rightarrow> (Inl e, st5)
                             | (Inr u, st5) \<Rightarrow>
                                 (Inr results,
                                  if onProgress
                                  then st5\<lparr>s_events := s_events st5 @ [Complete runId]\<rparr>
                                  else st5))))))"

section \<open>Sentiment: the score against its specification\<close>

text \<open>
  The specification's words: a phrase is found when it occurs in the context as a
  substring, ignoring case; the matched numbers count the distinct phrases of a lexicon
  that are found.
\<close>

definition occursIgnoringCase :: "string \<Rightarrow> string \<Rightarrow> bool" where
  "occursIgnoringCase phrase s = sublist (toLowerCase phrase) (toLowerCase s)"

definition matchedPhrases :: "string list \<Rightarrow> string \<Rightarrow> nat" where
  "matchedPhrases lexicon s = card {phrase \<in> set lexicon. occursIgnoringCase phrase s}"

definition clamp :: "real \<Rightarrow> real \<Rightarrow> real \<Rightarrow> real" where
  "clamp lo hi x = max lo (min hi x)"

definition specScore :: "string \<Rightarrow> real" where
  "specScore s =
     (let matchedPositive = matchedPhrases positivePatterns s;
          matchedNegative = matchedPhrases negativePatterns s
      in if matchedPositive + matchedNegative = 0 then 0
         else clamp (- 1) 1
                ((real matchedPositive - real matchedNegative)
                   / real (max (max matchedPositive matchedNegative) 1)))"

definition specSentiment :: "real \<Rightarrow> sentiment" where
  "specSentiment score =
     (if score > 1 / 5 then Positive else if score < - (1 / 5) then Negative else Neutral)"

lemma includesStr_sublist: "includesStr s p = sublist p s"
  by (induction s) (auto simp: sublist_Cons_right)

lemma fold_positiveStep:
  "fold (positiveStep lc) ps st =
     (fst st + int (length (filter (includesStr lc) ps)), snd st + length (filter (includesStr lc) ps))"
  by (induction ps arbitrary: st) (auto simp: positiveStep_def)

lemma fold_negativeStep:
  "fold (negativeStep lc) ps st =
     (fst st - int (length (filter (includesStr lc) ps)), snd st + length (filter (includesStr lc) ps))"
  by (induction ps arbitrary: st) (auto simp: negativeStep_def)

lemma distinct_positivePatterns: "distinct positivePatterns"
  unfolding positivePatterns_def by simp

lemma distinct_negativePatterns: "distinct negativePatterns"
  unfolding negativePatterns_def by simp

lemma toLowerCase_positivePatterns: "\<forall>p \<in> set positivePatterns. toLowerCase p = p"
  unfolding positivePatterns_def by code_simp

lemma toLowerCase_negativePatterns: "\<forall>p \<in> set negativePatterns. toLowerCase p = p"
  unfolding negativePatterns_def by code_simp

lemma matchedPhrases_filter:
  assumes "distinct lexicon" and "\<forall>p \<in> set lexicon. toLowerCase p = p"
  shows "matchedPhrases lexicon s = length (filter (includesStr (toLowerCase s)) lexicon)"
proof -
  have "{phrase \<in> set lexicon. occursIgnoringCase phrase s}
          = set (filter (includesStr (toLowerCase s)) lexicon)"
    using assms(2) by (auto simp: occursIgnoringCase_def includesStr_sublist)
  then have "matchedPhrases lexicon s = card (set (filter (includesStr (toLowerCase s)) lexicon))"
    unfolding matchedPhrases_def by (rule arg_cong)
  also have "\<dots> = length (filter (includesStr (toLowerCase s)) lexicon)"
    by (rule distinct_card) (simp add: assms(1))
  finally show ?thesis .
qed

lemma clamp_bounds: "lo \<le> hi \<Longrightarrow> lo \<le> clamp lo hi x \<and> clamp lo hi x \<le> hi"
  unfolding clamp_def by auto

text \<open>
  Claim C7. For every context string, the sentiment score is 0 when no phrase of either
  lexicon occurs in it, and otherwise the quotient of the difference of the two matched
  numbers by the greatest of them and 1, clamped to the interval from -1 to 1, where the
  matched numbers count the distinct lexicon phrases found as substrings ignoring case.
  The sentiment is positive exactly for a score above 0.2, negative exactly for a score
  below -0.2 and neutral otherwise, so that a context with no lexicon match is neutral
  with score 0.
\<close>

theorem sentiment_score_formula:
  "sr_score (analyzeSentiment context brand) = specScore context \<and>
   sr_sentiment (analyzeSentiment context brand) = specSentiment (specScore context) \<and>
   (matchedPhrases positivePatterns context = 0 \<and> matchedPhrases negativePatterns context = 0
      \<longrightarrow> sr_score (analyzeSentiment context brand) = 0
          \<and> sr_sentiment (analyzeSentiment context brand) = Neutral) \<and>
   (sr_sentiment (analyzeSentiment context brand) = Positive
      \<longleftrightarrow> sr_score (analyzeSentiment context brand) > 1 / 5) \<and>
   (sr_sentiment (analyzeSentiment context brand) = Negative
      \<longleftrightarrow> sr_score (analyzeSentiment context brand) < - (1 / 5)) \<and>
   - 1 \<le> sr_score (analyzeSentiment context brand) \<and> sr_score (analyzeSentiment context brand) \<le> 1"
proof -
  let ?P = "length (filter (includesStr (toLowerCase context)) positivePatterns)"
  let ?N = "length (filter (includesStr (toLowerCase context)) negativePatterns)"
  have mp: "matchedPhrases positivePatterns context = ?P"
    by (rule matchedPhrases_filter [OF distinct_positivePatterns toLowerCase_positivePatterns])
  have mn: "matchedPhrases negativePatterns context = ?N"
    by (rule matchedPhrases_filter [OF distinct_negativePatterns toLowerCase_negativePatterns])
  have score: "sr_score (analyzeSentiment context brand) = specScore context"
    unfolding analyzeSentiment_def specScore_def mp mn clamp_def Let_def
    by (simp add: fold_positiveStep fold_negativeStep)
  have sent: "sr_sentiment (analyzeSentiment context brand)
                = specSentiment (sr_score (analyzeSentiment context brand))"
    unfolding analyzeSentiment_def specSentiment_def Let_def by simp
  have zero: "matchedPhrases positivePatterns context = 0 \<and> matchedPhrases negativePatterns context = 0
                \<longrightarrow> specScore context = 0"
    unfolding specScore_def Let_def by simp
  have bounds: "- 1 \<le> specScore context \<and> specScore context \<le> 1"
    unfolding specScore_def Let_def
    using clamp_bounds [of "- 1" 1] by auto
  show ?thesis
    using score sent zero bounds by (auto simp: specSentiment_def split: if_splits)
qed

theorem sentiment_score_formula_witness:
  "sr_score (analyzeSentiment ''X is the best tool, highly rated'' ''X'') = 1 \<and>
   sr_sentiment (analyzeSentiment ''X is the best tool, highly rated'' ''X'') = Positive \<and>
   sr_sentiment (analyzeSentiment ''X is expensive and clunky'' ''X'') = Negative \<and>
   matchedPhrases positivePatterns ''X is a tool'' = 0 \<and>
   matchedPhrases negativePatterns ''X is a tool'' = 0 \<and>
   sr_score (analyzeSentiment ''X is a tool'' ''X'') = 0 \<and>
   sr_sentiment (analyzeSentiment ''X is a tool'' ''X'') = Neutral"
proof -
  have a: "sr_score (analyzeSentiment ''X is the best tool, highly rated'' ''X'') = 1"
    by code_simp
  have b: "sr_score (analyzeSentiment ''X is expensive and clunky'' ''X'') = - 1"
    by code_simp
  have p0: "matchedPhrases positivePatterns ''X is a tool'' = 0"
    unfolding matchedPhrases_filter [OF distinct_positivePatterns toLowerCase_positivePatterns]
    by code_simp
  have n0: "matchedPhrases negativePatterns ''X is a tool'' = 0"
    unfolding matchedPhrases_filter [OF distinct_negativePatterns toLowerCase_negativePatterns]
    by code_simp
  show ?thesis
    using a b p0 n0
      sentiment_score_formula [of "''X is the best tool, highly rated''" "''X''"]
      sentiment_score_formula [of "''X is expensive and clunky''" "''X''"]
      sentiment_score_formula [of "''X is a tool''" "''X''"]
    by (simp add: specSentiment_def)
qed

section \<open>Whole-word matching of a brand\<close>

text \<open>
  The pattern of a brand compiles to the brand's characters, taken literally, between two
  word-boundary assertions. \<open>occursAt t brand i\<close>: the brand stands at index \<open>i\<close> of
  \<open>t\<close>, ignoring case. \<open>insideLargerWord t i n\<close>: a letter, a digit or an underscore
  stands right before or right after the \<open>n\<close> code units from index \<open>i\<close>, so that they
  are part of a longer word; the letters are those of the whole repertoire below 256,
  not only the ASCII ones. \<open>delimitedAt t i n\<close>: no ASCII word character stands right
  before or right after them.
\<close>

definition wholeWord :: "string \<Rightarrow> rx list" where
  "wholeWord brand = WordB # map Lit brand @ [WordB]"

definition occursAt :: "string \<Rightarrow> string \<Rightarrow> nat \<Rightarrow> bool" where
  "occursAt t brand i =
     (i + length brand \<le> length t \<and>
      map canonicalize (slice t i (i + length brand)) = map canonicalize brand)"

definition isLetterOrDigit :: "char \<Rightarrow> bool" where
  "isLetterOrDigit c =
     (let n = codeUnit c
      in isWordChar c \<or> n = 170 \<or> n = 181 \<or> n = 186 \<or>
         (192 \<le> n \<and> n \<le> 255 \<and> n \<noteq> 215 \<and> n \<noteq> 247))"

definition insideLargerWord :: "string \<Rightarrow> nat \<Rightarrow> nat \<Rightarrow> bool" where
  "insideLargerWord t i n =
     (0 < n \<and>
      ((0 < i \<and> i \<le> length t \<and> isLetterOrDigit (t ! (i - 1))) \<or>
       (i + n < length t \<and> isLetterOrDigit (t ! (i + n)))))"

lemma parseFragment_escapeRegex:
  "parseFragment (escapeRegex b @ rest) = map_option ((@) (map Lit b)) (parseFragment rest)"
proof (induction b)
  case Nil
  show ?case by (simp add: escapeRegex_def option.map_ident)
next
  case (Cons c b)
  have IH: "parseFragment (escapeRegex b @ rest) = map_option ((@) (map Lit b)) (parseFragment rest)"
    using Cons.IH .
  show ?case
  proof (cases "c \<in> set syntaxChars")
    case True
    then have cb: "c \<noteq> CHR ''b''" by (auto simp: syntaxChars_def backslash_def)
    have "escapeRegex (c # b) @ rest = backslash # c # (escapeRegex b @ rest)"
      using True by (simp add: escapeRegex_def)
    then show ?thesis
      using True cb IH by (simp add: option.map_comp comp_def)
  next
    case False
    then have nb: "c \<noteq> backslash" and nd: "c \<noteq> CHR ''.''"
      by (auto simp: syntaxChars_def)
    have "escapeRegex (c # b) @ rest = c # (escapeRegex b @ rest)"
      using False by (simp add: escapeRegex_def)
    then show ?thesis
      using False nb nd IH by (simp add: option.map_comp comp_def)
  qed
qed

lemma parseFragment_mentionPattern:
  "parseFragment (mentionPattern brand) = Some (wholeWord brand)"
proof -
  have tail: "parseFragment [backslash, CHR ''b''] = Some [WordB]"
    by simp
  have "parseFragment (escapeRegex brand @ [backslash, CHR ''b'']) = Some (map Lit brand @ [WordB])"
    unfolding parseFragment_escapeRegex tail by simp
  then show ?thesis
    unfolding mentionPattern_def wholeWord_def by simp
qed

lemma matchAllIndices_mentionPattern:
  "matchAllIndices builtin (mentionPattern brand) t = Inr (matchAllFrom (wholeWord brand) t 0)"
  unfolding matchAllIndices_def parseFragment_mentionPattern by simp

lemma mtch_lits:
  "mtch (map Lit b @ rs) t i =
     (if map canonicalize (take (length b) (drop i t)) = map canonicalize b
      then mtch rs t (i + length b) else None)"
proof (induction b arbitrary: i)
  case Nil
  show ?case by simp
next
  case (Cons c b)
  show ?case
  proof (cases "i < length t")
    case True
    then have d: "drop i t = t ! i # drop (Suc i) t"
      by (simp add: Cons_nth_drop_Suc)
    show ?thesis
      using True by (auto simp: Cons.IH d)
  next
    case False
    then show ?thesis by simp
  qed
qed

lemma wordBoundary_le: "wordBoundary t i \<Longrightarrow> i \<le> length t"
  unfolding wordBoundary_def Let_def by (cases "i \<le> length t") auto

lemma take_eq_length:
  "map f (take n (drop i t)) = map g b \<Longrightarrow> length b = n \<Longrightarrow> 0 < n \<Longrightarrow> i + n \<le> length t"
proof -
  assume a: "map f (take n (drop i t)) = map g b" and b: "length b = n" and c: "0 < n"
  from a have "length (take n (drop i t)) = length b"
    by (metis length_map)
  with b c show ?thesis by (simp add: min_def split: if_splits)
qed

lemma mtch_wholeWord:
  "mtch (wholeWord b) t i =
     (if wordBoundary t i \<and> occursAt t b i \<and> wordBoundary t (i + length b)
      then Some (i + length b) else None)"
proof (cases "b = []")
  case True
  then show ?thesis
    unfolding wholeWord_def occursAt_def slice_def
    by (auto dest: wordBoundary_le)
next
  case False
  then have "map canonicalize (take (length b) (drop i t)) = map canonicalize b
               \<Longrightarrow> i + length b \<le> length t"
    by (rule_tac take_eq_length [where f = canonicalize and g = canonicalize and b = b]) auto
  then show ?thesis
    unfolding wholeWord_def occursAt_def slice_def
    by (auto simp: mtch_lits)
qed

definition wholeWordAt :: "string \<Rightarrow> string \<Rightarrow> nat \<Rightarrow> bool" where
  "wholeWordAt t brand i =
     (wordBoundary t i \<and> occursAt t brand i \<and> wordBoundary t (i + length brand))"

definition delimitedAt :: "string \<Rightarrow> nat \<Rightarrow> nat \<Rightarrow> bool" where
  "delimitedAt t i n =
     (\<not> (0 < i \<and> isWordChar (t ! (i - 1))) \<and> \<not> (i + n < length t \<and> isWordChar (t ! (i + n))))"

lemma firstSome_map_None:
  "firstSome (map f xs) = None \<longleftrightarrow> (\<forall>x \<in> set xs. f x = None)"
  by (induction xs) (auto split: option.splits)

lemma firstSome_map_Some_least:
  "firstSome (map f xs) = Some y \<Longrightarrow>
     \<exists>n < length xs. f (xs ! n) = Some y \<and> (\<forall>m < n. f (xs ! m) = None)"
proof (induction xs)
  case Nil
  then show ?case by simp
next
  case (Cons x xs)
  show ?case
  proof (cases "f x")
    case None
    with Cons.prems have "firstSome (map f xs) = Some y" by simp
    from Cons.IH [OF this] obtain n where n: "n < length xs" "f (xs ! n) = Some y"
      "\<forall>m < n. f (xs ! m) = None" by blast
    have "\<forall>m < Suc n. f ((x # xs) ! m) = None"
      using None n(3) by (auto simp: less_Suc_eq_0_disj)
    with n(1,2) show ?thesis
      by (intro exI [of _ "Suc n"]) simp
  next
    case (Some z)
    with Cons.prems have "z = y" by simp
    with Some show ?thesis
      by (intro exI [of _ 0]) simp
  qed
qed

lemma execFrom_None:
  "execFrom rs t k = None \<longleftrightarrow> (\<forall>i. k \<le> i \<and> i \<le> length t \<longrightarrow> mtch rs t i = None)"
  unfolding execFrom_def firstSome_map_None
  by (auto simp del: upt_Suc simp: less_Suc_eq_le)

lemma execFrom_Some_least:
  assumes "execFrom rs t k = Some (i, e)"
  shows "mtch rs t i = Some e \<and> k \<le> i \<and> i \<le> length t \<and>
         (\<forall>j. k \<le> j \<and> j < i \<longrightarrow> mtch rs t j = None)"
proof -
  let ?f = "\<lambda>i. map_option (Pair i) (mtch rs t i)"
  from assms have "firstSome (map ?f [k ..< Suc (length t)]) = Some (i, e)"
    unfolding execFrom_def .
  from firstSome_map_Some_least [OF this]
  obtain n where n: "n < length [k ..< Suc (length t)]"
      "?f ([k ..< Suc (length t)] ! n) = Some (i, e)"
      "\<forall>m < n. ?f ([k ..< Suc (length t)] ! m) = None"
    by blast
  from n(1) have nth: "[k ..< Suc (length t)] ! n = k + n"
    by (simp del: upt_Suc)
  from n(2) nth have i: "i = k + n" and e: "mtch rs t (k + n) = Some e"
    by auto
  have "\<forall>j. k \<le> j \<and> j < i \<longrightarrow> mtch rs t j = None"
  proof (intro allI impI)
    fix j assume j: "k \<le> j \<and> j < i"
    then have "j - k < n" using i by arith
    with n(3) have "?f ([k ..< Suc (length t)] ! (j - k)) = None" by blast
    moreover have "[k ..< Suc (length t)] ! (j - k) = j"
    proof -
      from n(1) have "k + n < Suc (length t)" by (simp del: upt_Suc)
      with j i have "k + (j - k) < Suc (length t)" by arith
      then have "[k ..< Suc (length t)] ! (j - k) = k + (j - k)" by (rule nth_upt)
      with j show ?thesis by simp
    qed
    ultimately show "mtch rs t j = None" by simp
  qed
  moreover have "i \<le> length t" using n(1) i by (simp del: upt_Suc)
  ultimately show ?thesis using i e by simp
qed

lemma matchAllFrom_Nil:
  "matchAllFrom rs t k = [] \<longleftrightarrow> execFrom rs t k = None"
  by (subst matchAllFrom.simps) (auto split: option.splits)

lemma matchAllFrom_Cons:
  "matchAllFrom rs t k = i # others \<Longrightarrow> \<exists>e. execFrom rs t k = Some (i, e)"
  by (subst (asm) matchAllFrom.simps) (auto split: option.splits)

lemma matchAllFrom_member:
  "i \<in> set (matchAllFrom rs t k) \<Longrightarrow> \<exists>e. mtch rs t i = Some e"
proof (induction rs t k rule: matchAllFrom.induct)
  case (1 rs t k)
  show ?case
  proof (cases "execFrom rs t k")
    case None
    with "1.prems" show ?thesis
      by (subst (asm) matchAllFrom.simps) simp
  next
    case (Some ie)
    obtain i0 e0 where ie: "ie = (i0, e0)" by (cases ie)
    from "1.prems" Some ie
    have "i = i0 \<or> i \<in> set (matchAllFrom rs t (if e0 = i0 then Suc e0 else e0))"
      by (subst (asm) matchAllFrom.simps) simp
    then show ?thesis
    proof
      assume "i = i0"
      with execFrom_Some_least [of rs t k i0 e0] Some ie show ?thesis by auto
    next
      assume "i \<in> set (matchAllFrom rs t (if e0 = i0 then Suc e0 else e0))"
      with "1.IH" [OF Some ie [symmetric]] show ?thesis by simp
    qed
  qed
qed

text \<open>The first match of a brand is its least whole-word occurrence.\<close>

lemma matchFirst_mentionPattern:
  "matchFirst builtin (mentionPattern brand) t = Inr (Some i) \<longleftrightarrow>
     wholeWordAt t brand i \<and> (\<forall>j < i. \<not> wholeWordAt t brand j)"
proof -
  let ?rs = "wholeWord brand"
  have m: "\<And>j. (mtch ?rs t j = None) = (\<not> wholeWordAt t brand j)"
    by (simp add: mtch_wholeWord wholeWordAt_def)
  have le: "\<And>j. wholeWordAt t brand j \<Longrightarrow> j \<le> length t"
    by (auto simp: wholeWordAt_def dest: wordBoundary_le)
  show ?thesis
  proof
    assume "matchFirst builtin (mentionPattern brand) t = Inr (Some i)"
    then obtain others where "matchAllFrom ?rs t 0 = i # others"
      unfolding matchFirst_def matchAllIndices_mentionPattern
      by (auto split: list.splits)
    from matchAllFrom_Cons [OF this] obtain e where "execFrom ?rs t 0 = Some (i, e)" by blast
    from execFrom_Some_least [OF this] show "wholeWordAt t brand i \<and> (\<forall>j < i. \<not> wholeWordAt t brand j)"
      using m by (metis le0 option.distinct(1))
  next
    assume a: "wholeWordAt t brand i \<and> (\<forall>j < i. \<not> wholeWordAt t brand j)"
    then have "execFrom ?rs t 0 \<noteq> None"
      using execFrom_None [of ?rs t 0] m le by (metis le0)
    then obtain i' e where ex: "execFrom ?rs t 0 = Some (i', e)" by (cases "execFrom ?rs t 0") auto
    from execFrom_Some_least [OF ex] have i': "wholeWordAt t brand i'" "\<forall>j < i'. \<not> wholeWordAt t brand j"
      using m by (metis option.distinct(1), metis le0)
    from a i' have "i' = i" by (metis linorder_neqE_nat)
    with ex have "\<exists>others. matchAllFrom ?rs t 0 = i # others"
      by (subst matchAllFrom.simps) simp
    then show "matchFirst builtin (mentionPattern brand) t = Inr (Some i)"
      unfolding matchFirst_def matchAllIndices_mentionPattern by auto
  qed
qed

lemma matchFirst_mentionPattern_None:
  "matchFirst builtin (mentionPattern brand) t = Inr None \<longleftrightarrow> (\<forall>i. \<not> wholeWordAt t brand i)"
proof -
  have m: "\<And>j. (mtch (wholeWord brand) t j = None) = (\<not> wholeWordAt t brand j)"
    by (simp add: mtch_wholeWord wholeWordAt_def)
  have le: "\<And>j. wholeWordAt t brand j \<Longrightarrow> j \<le> length t"
    by (auto simp: wholeWordAt_def dest: wordBoundary_le)
  have "matchFirst builtin (mentionPattern brand) t = Inr None
          \<longleftrightarrow> matchAllFrom (wholeWord brand) t 0 = []"
    unfolding matchFirst_def matchAllIndices_mentionPattern by (auto split: list.splits)
  also have "\<dots> \<longleftrightarrow> (\<forall>i. i \<le> length t \<longrightarrow> \<not> wholeWordAt t brand i)"
    unfolding matchAllFrom_Nil execFrom_None using m by simp
  also have "\<dots> \<longleftrightarrow> (\<forall>i. \<not> wholeWordAt t brand i)"
    using le by blast
  finally show ?thesis .
qed

lemma isWordChar_canonicalize: "isWordChar (canonicalize c) = isWordChar c"
proof -
  have lt: "(of_char c :: nat) < 256" by simp
  show ?thesis
    unfolding isWordChar_def canonicalize_def codeUnit_def Let_def
    using lt by (auto simp: mod_if split: if_splits)
qed

lemma isWordChar_canonical_eq:
  "canonicalize x = canonicalize y \<Longrightarrow> isWordChar x = isWordChar y"
  by (metis isWordChar_canonicalize)

section \<open>The records of extractBrandMentions\<close>

lemma contextStart_eq: "nat (max 0 (int i - 150)) = i - 150"
  by simp

lemma mentionFor_Inr:
  assumes "mentionFor builtin text pm brand = Inr m"
  shows "m_brand m = brand \<and>
         m_mentioned m = (matchAllFrom (wholeWord brand) text 0 \<noteq> []) \<and>
         m_count m = length (matchAllFrom (wholeWord brand) text 0) \<and>
         (\<not> m_mentioned m \<longrightarrow> m = unmentioned brand) \<and>
         (m_mentioned m \<longrightarrow>
            m_position m = getPosition pm brand \<and>
            checkIfRecommended builtin text brand = Inr (m_isRecommended m) \<and>
            m_context m =
              Some (trim (slice text (hd (matchAllFrom (wholeWord brand) text 0) - 150)
                           (min (length text)
                              (hd (matchAllFrom (wholeWord brand) text 0) + length brand + 150)))))"
proof (cases "matchAllFrom (wholeWord brand) text 0")
  case Nil
  with assms show ?thesis
    unfolding mentionFor_def matchAllIndices_mentionPattern
    by (auto simp: unmentioned_def)
next
  case (Cons i others)
  with assms show ?thesis
    unfolding mentionFor_def matchAllIndices_mentionPattern Let_def contextStart_eq
    by (auto split: sum.splits)
qed

lemma mentionsFor_Inr:
  "mentionsFor builtin text pm brands = Inr ms \<Longrightarrow>
     list_all2 (\<lambda>brand m. mentionFor builtin text pm brand = Inr m) brands ms"
proof (induction brands arbitrary: ms)
  case Nil
  then show ?case by simp
next
  case (Cons b bs)
  then show ?case
    by (auto split: sum.splits)
qed

lemma extractBrandMentions_Inr:
  assumes "extractBrandMentions builtin text brands = Inr ms"
  shows "\<exists>found. firstIndices builtin text brands = Inr found \<and>
           list_all2 (\<lambda>brand m. mentionFor builtin text (buildPositionMap (brandPositions found)) brand = Inr m)
             brands ms"
  using assms unfolding extractBrandMentions_def
  by (auto split: sum.splits dest: mentionsFor_Inr)

lemma extractBrandMentions_member:
  assumes "extractBrandMentions builtin text brands = Inr ms" and "m \<in> set ms"
  shows "\<exists>pm. m_brand m \<in> set brands \<and> mentionFor builtin text pm (m_brand m) = Inr m"
proof -
  from extractBrandMentions_Inr [OF assms(1)] obtain found where
    l: "list_all2 (\<lambda>brand m. mentionFor builtin text (buildPositionMap (brandPositions found)) brand = Inr m) brands ms"
    by blast
  from assms(2) obtain k where k: "k < length ms" "ms ! k = m"
    by (auto simp: in_set_conv_nth)
  from l k have len: "k < length brands"
    and mf: "mentionFor builtin text (buildPositionMap (brandPositions found)) (brands ! k) = Inr m"
    by (auto simp: list_all2_conv_all_nth)
  from mentionFor_Inr [OF mf] have "m_brand m = brands ! k" by simp
  with len mf show ?thesis by (metis nth_mem)
qed

lemma wholeWordAt_delimited:
  assumes "b \<noteq> []" and "isWordChar (hd b)" and "isWordChar (last b)"
  shows "wholeWordAt t b i \<longleftrightarrow> occursAt t b i \<and> delimitedAt t i (length b)"
proof (cases "occursAt t b i")
  case False
  then show ?thesis by (simp add: wholeWordAt_def)
next
  case True
  let ?n = "length b"
  from True have le: "i + ?n \<le> length t"
    and eq: "map canonicalize (slice t i (i + ?n)) = map canonicalize b"
    by (auto simp: occursAt_def)
  from assms(1) have n: "0 < ?n" by simp
  have nth: "\<And>j. j < ?n \<Longrightarrow> canonicalize (t ! (i + j)) = canonicalize (b ! j)"
  proof -
    fix j assume j: "j < ?n"
    then have "slice t i (i + ?n) ! j = t ! (i + j)"
      using le by (simp add: slice_def)
    moreover have "map canonicalize (slice t i (i + ?n)) ! j = map canonicalize b ! j"
      using eq by simp
    moreover have "j < length (slice t i (i + ?n))"
      using le j by (simp add: slice_def)
    ultimately show "canonicalize (t ! (i + j)) = canonicalize (b ! j)"
      using j by simp
  qed
  have first: "isWordChar (t ! i)"
    using nth [of 0] n assms(1,2) isWordChar_canonical_eq [of "t ! i" "b ! 0"]
    by (simp add: hd_conv_nth)
  have last: "isWordChar (t ! (i + ?n - 1))"
    using nth [of "?n - 1"] n assms(1,3) isWordChar_canonical_eq [of "t ! (i + ?n - 1)" "b ! (?n - 1)"]
    by (simp add: last_conv_nth)
  from n le have ilt: "i < length t" and ipos: "0 < i + ?n" by arith+
  have wb1: "wordBoundary t i \<longleftrightarrow> \<not> (0 < i \<and> isWordChar (t ! (i - 1)))"
    using first ilt by (auto simp: wordBoundary_def Let_def)
  have wb2: "wordBoundary t (i + ?n) \<longleftrightarrow> \<not> (i + ?n < length t \<and> isWordChar (t ! (i + ?n)))"
    using last ipos le by (auto simp: wordBoundary_def Let_def)
  show ?thesis
    using True by (simp add: wholeWordAt_def delimitedAt_def wb1 wb2)
qed

lemma matchAllFrom_nonempty_iff:
  "matchAllFrom (wholeWord brand) t 0 \<noteq> [] \<longleftrightarrow> (\<exists>i. wholeWordAt t brand i)"
proof -
  have "matchFirst builtin (mentionPattern brand) t = Inr None
          \<longleftrightarrow> matchAllFrom (wholeWord brand) t 0 = []" for builtin :: regexp_builtin
    unfolding matchFirst_def matchAllIndices_mentionPattern by (auto split: list.splits)
  with matchFirst_mentionPattern_None show ?thesis by blast
qed

lemma matchFirst_hd:
  "matchAllFrom (wholeWord brand) t 0 \<noteq> [] \<Longrightarrow>
     matchFirst builtin (mentionPattern brand) t = Inr (Some (hd (matchAllFrom (wholeWord brand) t 0)))"
  unfolding matchFirst_def matchAllIndices_mentionPattern by (auto split: list.splits)

lemma regexTest_parsed:
  "parseFragment p = Some rs \<Longrightarrow> regexTest builtin p s = Inr (matchAllFrom rs s 0 \<noteq> [])"
  unfolding regexTest_def matchAllIndices_def by simp

lemma someTest_parsed:
  "\<forall>p \<in> set ps. parseFragment p \<noteq> None \<Longrightarrow> \<exists>r. someTest builtin ps s = Inr r"
proof (induction ps)
  case Nil
  show ?case by auto
next
  case (Cons p ps)
  then obtain rs where "parseFragment p = Some rs" by auto
  from regexTest_parsed [OF this] Cons show ?case
    by (cases "matchAllFrom rs s 0 \<noteq> []") auto
qed

lemma trim_nonspace:
  assumes "s \<noteq> []" and "\<not> isWhiteSpace (hd s)" and "\<not> isWhiteSpace (last s)"
  shows "trim s = s"
proof -
  from assms(1,2) have a: "dropWhile isWhiteSpace s = s"
    by (cases s) auto
  from assms(1,3) have b: "dropWhile isWhiteSpace (rev s) = rev s"
    by (cases "rev s") (auto simp: hd_rev [symmetric])
  show ?thesis unfolding trim_def a b by simp
qed

lemma mentionFor_first:
  assumes "matchFirst builtin (mentionPattern brand) text = Inr (Some i)"
      and "checkIfRecommended builtin text brand = Inr r"
  shows "\<exists>m. mentionFor builtin text pm brand = Inr m \<and>
             m_context m =
               Some (trim (slice text (i - 150) (min (length text) (i + length brand + 150))))"
proof -
  from assms(1) obtain others where "matchAllFrom (wholeWord brand) text 0 = i # others"
    unfolding matchFirst_def matchAllIndices_mentionPattern by (auto split: list.splits)
  with assms(2) show ?thesis
    unfolding mentionFor_def matchAllIndices_mentionPattern Let_def contextStart_eq
    by simp
qed

lemma extractBrandMentions_single:
  assumes "matchFirst builtin (mentionPattern brand) text = Inr (Some i)"
      and "checkIfRecommended builtin text brand = Inr r"
  shows "map_sum id (map m_context) (extractBrandMentions builtin text [brand])
           = Inr [Some (trim (slice text (i - 150) (min (length text) (i + length brand + 150))))]"
proof -
  let ?pm = "buildPositionMap (brandPositions [\<lparr>bp_brand = brand, bp_firstIndex = int i\<rparr>])"
  from mentionFor_first [OF assms, of ?pm] obtain m where
    m: "mentionFor builtin text ?pm brand = Inr m"
       "m_context m = Some (trim (slice text (i - 150) (min (length text) (i + length brand + 150))))"
    by blast
  from assms(1) m show ?thesis
    unfolding extractBrandMentions_def by simp
qed

text \<open>
  What the matching does: every counted match is an occurrence of the brand name itself,
  character by character up to case, regex-special characters included; and a brand name
  that begins and ends with an ASCII word character is mentioned exactly when it has an
  occurrence with no ASCII word character next to it.
\<close>

lemma counted_matches_are_literal:
  assumes "extractBrandMentions builtin text brands = Inr ms" and "m \<in> set ms"
  shows "(\<exists>indices. matchAllIndices builtin (mentionPattern (m_brand m)) text = Inr indices \<and>
            m_mentioned m = (indices \<noteq> []) \<and> m_count m = length indices \<and>
            (\<forall>i \<in> set indices. wholeWordAt text (m_brand m) i)) \<and>
         (m_brand m \<noteq> [] \<and> isWordChar (hd (m_brand m)) \<and> isWordChar (last (m_brand m)) \<longrightarrow>
            m_mentioned m = (\<exists>i. occursAt text (m_brand m) i \<and> delimitedAt text i (length (m_brand m))))"
proof -
  let ?b = "m_brand m"
  let ?is = "matchAllFrom (wholeWord ?b) text 0"
  from extractBrandMentions_member [OF assms] obtain pm where
    mf: "mentionFor builtin text pm ?b = Inr m" by blast
  from mentionFor_Inr [OF mf] have men: "m_mentioned m = (?is \<noteq> [])" and cnt: "m_count m = length ?is"
    by simp_all
  have each: "\<forall>i \<in> set ?is. wholeWordAt text ?b i"
  proof
    fix i assume "i \<in> set ?is"
    from matchAllFrom_member [OF this] show "wholeWordAt text ?b i"
      by (auto simp: mtch_wholeWord wholeWordAt_def split: if_splits)
  qed
  have first: "\<exists>indices. matchAllIndices builtin (mentionPattern ?b) text = Inr indices \<and>
            m_mentioned m = (indices \<noteq> []) \<and> m_count m = length indices \<and>
            (\<forall>i \<in> set indices. wholeWordAt text ?b i)"
    using men cnt each matchAllIndices_mentionPattern by blast
  have second: "?b \<noteq> [] \<and> isWordChar (hd ?b) \<and> isWordChar (last ?b) \<longrightarrow>
            m_mentioned m = (\<exists>i. occursAt text ?b i \<and> delimitedAt text i (length ?b))"
    using men matchAllFrom_nonempty_iff [of ?b "text"] wholeWordAt_delimited [of ?b "text"]
    by auto
  from first second show ?thesis by blast
qed

text \<open>
  Claim C6. Brand matching is case-insensitive whole-word matching: for every text and
  brand name, an occurrence of the brand name purely as a substring of a larger word
  (\<^verbatim>\<open>Cat\<close> inside \<^verbatim>\<open>Catalog\<close>) is never counted as a mention, and the regex-special
  characters of the brand name are escaped, so that they are matched literally. The
  program escapes the name and wraps it in two word-boundary assertions, and departs from
  the claim where an end of the name is not an ASCII word character or the neighbour is
  a letter outside ASCII. The brand \<^verbatim>\<open>.NET\<close> occurs in the text \<^verbatim>\<open>ASP.NET\<close> only at
  index 3, inside the larger word, and is counted as a mention; the brand \<^verbatim>\<open>C++\<close>
  stands as a word of its own in \<^verbatim>\<open>I use C++ daily\<close> and is not counted, and is
  matched at the head of \<^verbatim>\<open>C++11\<close>; and the brand \<^verbatim>\<open>ana\<close> is matched at index 3
  of the Spanish word of six letters whose third letter is n with tilde (code unit 241).
  The RegExp built-in is consulted for the recommendation patterns of \<^verbatim>\<open>.NET\<close> only,
  none of which matches the text.
\<close>

theorem brand_counted_inside_larger_word:
  "extractBrandMentions (\<lambda>p s. Inr []) ''ASP.NET'' [''.NET'']
     = Inr [\<lparr>m_brand = ''.NET'', m_mentioned = True, m_count = 1, m_position = PRank 1,
             m_context = Some ''ASP.NET'', m_sentiment = Some Neutral,
             m_sentimentScore = Some 0, m_isRecommended = False\<rparr>] \<and>
   filter (occursAt ''ASP.NET'' ''.NET'') [0 ..< 8] = [3] \<and>
   insideLargerWord ''ASP.NET'' 3 4 \<and>
   extractBrandMentions (\<lambda>p s. Inr []) ''I use C++ daily'' [''C++''] = Inr [unmentioned ''C++''] \<and>
   occursAt ''I use C++ daily'' ''C++'' 6 \<and>
   \<not> insideLargerWord ''I use C++ daily'' 6 3 \<and>
   matchAllIndices (\<lambda>p s. Inr []) (mentionPattern ''C++'') ''C++11'' = Inr [0] \<and>
   insideLargerWord ''C++11'' 0 3 \<and>
   matchAllIndices (\<lambda>p s. Inr []) (mentionPattern ''ana'') (''ma'' @ [CHR 0xF1] @ ''ana'') = Inr [3] \<and>
   insideLargerWord (''ma'' @ [CHR 0xF1] @ ''ana'') 3 3"
  by code_simp

text \<open>
  Claim C8, as amended. For every mentioned brand, the context snippet is the substring of
  the response text from 150 characters before the start of the first match to 150
  characters after the end of the first match (its start plus the length of the brand
  name plus 150), clipped to the bounds of the text and trimmed of leading and trailing
  white space.
\<close>

theorem context_window:
  assumes "extractBrandMentions builtin text brands = Inr ms" and "m \<in> set ms" and "m_mentioned m"
  shows "\<exists>i. matchFirst builtin (mentionPattern (m_brand m)) text = Inr (Some i) \<and>
             m_context m =
               Some (trim (slice text (i - 150) (min (length text) (i + length (m_brand m) + 150))))"
proof -
  let ?b = "m_brand m"
  from extractBrandMentions_member [OF assms(1,2)] obtain pm where
    mf: "mentionFor builtin text pm ?b = Inr m" by blast
  from mentionFor_Inr [OF mf] assms(3)
  have ne: "matchAllFrom (wholeWord ?b) text 0 \<noteq> []"
    and ctx: "m_context m =
       Some (trim (slice text (hd (matchAllFrom (wholeWord ?b) text 0) - 150)
                      (min (length text) (hd (matchAllFrom (wholeWord ?b) text 0) + length ?b + 150))))"
    by simp_all
  from matchFirst_hd [OF ne] ctx show ?thesis by blast
qed

theorem context_window_witness:
  "extractBrandMentions (\<lambda>p s. Inr []) '' x A. '' [''A'']
     = Inr [\<lparr>m_brand = ''A'', m_mentioned = True, m_count = 1, m_position = PRank 1,
             m_context = Some ''x A.'', m_sentiment = Some Neutral,
             m_sentimentScore = Some 0, m_isRecommended = False\<rparr>] \<and>
   matchFirst (\<lambda>p s. Inr []) (mentionPattern ''A'') '' x A. '' = Inr (Some 3) \<and>
   trim (slice '' x A. '' (3 - 150) (min (length '' x A. '') (3 + length ''A'' + 150))) = ''x A.''"
proof -
  let ?t = "'' x A. ''"
  let ?m = "\<lparr>m_brand = ''A'', m_mentioned = True, m_count = 1, m_position = PRank 1,
             m_context = Some ''x A.'', m_sentiment = Some Neutral,
             m_sentimentScore = Some 0, m_isRecommended = False\<rparr>"
  have e: "extractBrandMentions (\<lambda>p s. Inr []) ?t [''A''] = Inr [?m]"
    by code_simp
  have f: "matchFirst (\<lambda>p s. Inr []) (mentionPattern ''A'') ?t = Inr (Some 3)"
    by code_simp
  from context_window [OF e, of ?m] f
  have "Some ''x A.'' = Some (trim (slice ?t (3 - 150) (min (length ?t) (3 + length ''A'' + 150))))"
    by auto
  with e f show ?thesis by simp
qed

text \<open>
  The claim as first stated ends the window 150 characters after the start of the first
  match. On the text made of \<^verbatim>\<open>A\<close>, a space and 200 times \<^verbatim>\<open>x\<close>, with the brand
  \<^verbatim>\<open>A\<close> matched at index 0, the snippet has 151 characters, one more than that window.
\<close>

theorem context_window_counterexample:
  "matchFirst (\<lambda>p s. Inr []) (mentionPattern ''A'') (''A '' @ replicate 200 (CHR ''x'')) = Inr (Some 0) \<and>
   map_sum id (map m_context)
     (extractBrandMentions (\<lambda>p s. Inr []) (''A '' @ replicate 200 (CHR ''x'')) [''A''])
     = Inr [Some (''A '' @ replicate 149 (CHR ''x''))] \<and>
   trim (slice (''A '' @ replicate 200 (CHR ''x'')) (0 - 150)
           (min (length (''A '' @ replicate 200 (CHR ''x''))) (0 + 150)))
     = ''A '' @ replicate 148 (CHR ''x'')"
proof -
  let ?B = "(\<lambda>p s. Inr []) :: regexp_builtin"
  let ?T = "''A '' @ replicate 200 (CHR ''x'')"
  have nw: "\<not> isWhiteSpace (CHR ''A'')" "\<not> isWhiteSpace (CHR ''x'')"
    by (simp_all add: isWhiteSpace_def codeUnit_def)
  have w: "isWordChar (CHR ''A'')" "\<not> isWordChar (CHR '' '')"
    by (simp_all add: isWordChar_def codeUnit_def)
  have "wholeWordAt ?T ''A'' 0"
    using w by (simp add: wholeWordAt_def wordBoundary_def occursAt_def slice_def)
  then have mf: "matchFirst ?B (mentionPattern ''A'') ?T = Inr (Some 0)"
    unfolding matchFirst_mentionPattern by simp
  have "\<forall>p \<in> set (recommendPatterns (toLowerCase ''A'')). parseFragment p \<noteq> None"
    by code_simp
  from someTest_parsed [OF this] obtain r where r: "checkIfRecommended ?B ?T ''A'' = Inr r"
    unfolding checkIfRecommended_def Let_def by blast
  have t1: "trim (slice ?T (0 - 150) (min (length ?T) (0 + length ''A'' + 150)))
              = ''A '' @ replicate 149 (CHR ''x'')"
  proof -
    have "slice ?T (0 - 150) (min (length ?T) (0 + length ''A'' + 150)) = ''A '' @ replicate 149 (CHR ''x'')"
      by (simp add: slice_def)
    moreover have "trim (''A '' @ replicate 149 (CHR ''x'')) = ''A '' @ replicate 149 (CHR ''x'')"
      by (rule trim_nonspace) (simp_all add: nw)
    ultimately show ?thesis by simp
  qed
  have t2: "trim (slice ?T (0 - 150) (min (length ?T) (0 + 150))) = ''A '' @ replicate 148 (CHR ''x'')"
  proof -
    have "slice ?T (0 - 150) (min (length ?T) (0 + 150)) = ''A '' @ replicate 148 (CHR ''x'')"
      by (simp add: slice_def)
    moreover have "trim (''A '' @ replicate 148 (CHR ''x'')) = ''A '' @ replicate 148 (CHR ''x'')"
      by (rule trim_nonspace) (simp_all add: nw)
    ultimately show ?thesis by simp
  qed
  from extractBrandMentions_single [OF mf r] t1 mf t2 show ?thesis by simp
qed

section \<open>Citations\<close>

text \<open>The web-sourced entries of the grounding chunks, in order.\<close>

definition webEntries :: "metadataValue option \<Rightarrow> web list" where
  "webEntries groundingMetadata =
     (case groundingMetadata of
        None \<Rightarrow> []
      | Some g \<Rightarrow> List.map_filter ch_web (List.map_filter id (chunksOf g)))"

definition citationOf :: "url_builtin \<Rightarrow> web \<Rightarrow> citation" where
  "citationOf h w =
     \<lparr>ct_url = w_uri w,
      ct_title = (case w_title w of Some t \<Rightarrow> t | None \<Rightarrow> []),
      ct_domain = extractDomain h (w_uri w)\<rparr>"

fun firstByUrl :: "string set \<Rightarrow> web list \<Rightarrow> web list" where
  "firstByUrl seen [] = []"
| "firstByUrl seen (w # ws) =
     (if w_uri w \<in> seen then firstByUrl seen ws
      else w # firstByUrl (insert (w_uri w) seen) ws)"

lemma citationStep_None: "ch_web c = None \<Longrightarrow> citationStep h c st = st"
  by (simp add: citationStep_def)

lemma citationStep_Some:
  "ch_web c = Some w \<Longrightarrow>
     citationStep h c (seen, cits) =
       (if w_uri w \<notin> seen then (insert (w_uri w) seen, cits @ [citationOf h w]) else (seen, cits))"
  by (simp add: citationStep_def citationOf_def)

lemma fold_citationStep:
  "fold (citationStep h) chunks (seen, cits) =
     (seen \<union> w_uri ` set (List.map_filter ch_web chunks),
      cits @ map (citationOf h) (firstByUrl seen (List.map_filter ch_web chunks)))"
proof (induction chunks arbitrary: seen cits)
  case Nil
  show ?case by (simp add: List.map_filter_simps)
next
  case (Cons c chunks)
  show ?case
  proof (cases "ch_web c")
    case None
    then show ?thesis
      by (simp add: citationStep_None Cons.IH List.map_filter_simps)
  next
    case (Some w)
    then show ?thesis
      by (auto simp: citationStep_Some Cons.IH List.map_filter_simps)
  qed
qed

lemma chunkLoop_fold:
  "None \<notin> set cs \<Longrightarrow> chunkLoop h cs st = Inr (fold (citationStep h) (List.map_filter id cs) st)"
proof (induction cs arbitrary: st)
  case Nil
  show ?case by (simp add: List.map_filter_simps)
next
  case (Cons c cs)
  from Cons.prems obtain c0 where c: "c = Some c0" by (cases c) auto
  from Cons.prems have "None \<notin> set cs" by simp
  from Cons.IH [OF this] c show ?case by (simp add: List.map_filter_simps)
qed


lemma supportLoop_ok: "None \<notin> set ss \<Longrightarrow> supportLoop ss = Inr ()"
proof (induction ss)
  case Nil
  show ?case by simp
next
  case (Cons sp ss)
  from Cons.prems obtain s0 where "sp = Some s0" by (cases sp) auto
  with Cons show ?case by simp
qed


lemma extractCitations_firstByUrl:
  assumes "None \<notin> set (chunksOf g)" and "None \<notin> set (supportsOf g)"
  shows "extractCitations h (Some g) = Inr (map (citationOf h) (firstByUrl {} (webEntries (Some g))))"
  unfolding extractCitations_def webEntries_def
  by (simp add: chunkLoop_fold [OF assms(1)] supportLoop_ok [OF assms(2)] fold_citationStep)


text \<open>On the metadata of a response of the provider extractCitations returns.\<close>

lemma extractCitations_asValue:
  "\<exists>cs. extractCitations h (map_option asValue gm) = Inr cs"
proof (cases gm)
  case None
  then show ?thesis by (simp add: extractCitations_def)
next
  case (Some g)
  have "None \<notin> set (chunksOf (asValue g))" "None \<notin> set (supportsOf (asValue g))"
    by (auto simp: chunksOf_def supportsOf_def asValue_def split: option.splits)
  from extractCitations_firstByUrl [OF this, of h] Some show ?thesis by simp
qed













section \<open>Unescaped recommendation patterns\<close>

text \<open>
  An environment for evaluating the program: every request to the model fails, the
  database has no fault, and the built-ins find nothing.
\<close>

definition idleEnv :: env where
  "idleEnv =
     \<lparr>regexp = (\<lambda>p s. Inr []), hostnameOf = (\<lambda>u. None),
      generateContent = (\<lambda>n p. Inl (Failure ''quota exceeded'')),
      elapsedMs = (\<lambda>n. 0), dbFault = (\<lambda>k. None), clock = (\<lambda>k. k)\<rparr>"

lemma regexTest_rejected:
  "parseFragment p = None \<Longrightarrow> rejected p \<Longrightarrow> regexTest builtin p s = Inl (SyntaxError p)"
  unfolding regexTest_def matchAllIndices_def by simp

lemma checkIfRecommended_paren:
  "checkIfRecommended builtin text ''('' = Inl (SyntaxError ''recommend ('')"
proof -
  have l: "toLowerCase ''('' = ''(''" by code_simp
  have p: "parseFragment ''recommend ('' = None" by code_simp
  have r: "rejected ''recommend (''" by code_simp
  have "regexTest builtin ''recommend ('' (toLowerCase text) = Inl (SyntaxError ''recommend ('')"
    by (rule regexTest_rejected [OF p r])
  then show ?thesis
    unfolding checkIfRecommended_def Let_def l recommendPatterns_def by simp
qed

text \<open>
  Claim C4. For every response text and every list of brand names, extractBrandMentions
  returns exactly one record per brand name, keyed to it, a brand without a match getting
  \<^verbatim>\<open>mentioned = false\<close>, \<^verbatim>\<open>position = null\<close> and the remaining fields null or false.
  The program departs from the claim where the recommendation patterns of a mentioned
  brand do not compile: for the brand \<^verbatim>\<open>C++\<close>, matched at index 0 of the text
  \<^verbatim>\<open>C++11 is fast\<close> by the escaped mention pattern, checkIfRecommended builds the
  pattern \<^verbatim>\<open>recommend c++\<close> from the raw name, the constructor throws, and
  extractBrandMentions throws with it and returns no record.
\<close>

theorem extractBrandMentions_throws:
  "matchAllIndices builtin (mentionPattern ''C++'') ''C++11 is fast'' = Inr [0] \<and>
   checkIfRecommended builtin ''C++11 is fast'' ''C++'' = Inl (SyntaxError ''recommend c++'') \<and>
   extractBrandMentions builtin ''C++11 is fast'' [''C++''] = Inl (SyntaxError ''recommend c++'')"
  by code_simp

text \<open>
  Claim C10. Recommendation detection builds its patterns from the lower-cased brand name
  without escaping it, unlike mention matching: there is a brand name, the single
  character \<^verbatim>\<open>(\<close>, for which checkIfRecommended throws on every text while the
  escaped mention pattern matches it in \<^verbatim>\<open>A f(x)\<close>; and since the call stands inside
  the \<^verbatim>\<open>try\<close> of analyzePrompt, a successful response of the model with that text is
  turned into an error result, with \<^verbatim>\<open>success = false\<close> and every brand unmentioned,
  where the brand \<^verbatim>\<open>A\<close> alone would have been reported as mentioned.
\<close>

theorem recommendation_pattern_unescaped:
  assumes "generateContent env n prompt = Inr response" and "resp_text response = ''A f(x)''"
  shows "matchAllIndices (regexp env) (mentionPattern ''('') (resp_text response) = Inr [3] \<and>
         (\<forall>text. checkIfRecommended (regexp env) text ''('' = Inl (SyntaxError ''recommend ('')) \<and>
         analyzePrompt env n prompt [''A'', ''('']
           = failureResult env n prompt [''A'', ''(''] (SyntaxError ''recommend ('') \<and>
         a_success (analyzePrompt env n prompt [''A'', ''('']) = False \<and>
         a_error (analyzePrompt env n prompt [''A'', ''(''])
           = Some ''Invalid regular expression: /recommend (/i'' \<and>
         a_mentions (analyzePrompt env n prompt [''A'', ''('']) = [unmentioned ''A'', unmentioned ''(''] \<and>
         a_success (analyzePrompt env n prompt [''A'']) = True \<and>
         map m_mentioned (a_mentions (analyzePrompt env n prompt [''A''])) = [True]"
proof -
  have m: "matchAllIndices builtin (mentionPattern ''('') ''A f(x)'' = Inr [3]" for builtin
    by code_simp
  have e: "extractBrandMentions builtin ''A f(x)'' [''A'', ''(''] = Inl (SyntaxError ''recommend ('')"
    for builtin
    by code_simp
  have a: "map_sum id (map m_mentioned) (extractBrandMentions builtin ''A f(x)'' [''A'']) = Inr [True]"
    for builtin
    by code_simp
  have two: "analyzePrompt env n prompt [''A'', ''('']
               = failureResult env n prompt [''A'', ''(''] (SyntaxError ''recommend ('')"
    unfolding analyzePrompt_def using assms e by simp
  have one: "a_success (analyzePrompt env n prompt [''A'']) = True \<and>
             map m_mentioned (a_mentions (analyzePrompt env n prompt [''A''])) = [True]"
  proof -
    obtain cs where cs: "extractCitations (hostnameOf env)
                           (map_option asValue (resp_groundingMetadata response)) = Inr cs"
      using extractCitations_asValue by blast
    show ?thesis
      unfolding analyzePrompt_def using assms a [of "regexp env"] cs
      by (cases "extractBrandMentions (regexp env) ''A f(x)'' [''A'']") (simp_all add: Let_def)
  qed
  show ?thesis
    using m two one checkIfRecommended_paren assms(2)
    by (simp add: failureResult_def)
qed

theorem recommendation_pattern_unescaped_witness:
  "generateContent
     (idleEnv\<lparr>generateContent :=
        (\<lambda>n p. Inr \<lparr>resp_text = ''A f(x)'', resp_groundingMetadata = None\<rparr>)\<rparr>) 0 ''q''
     = Inr \<lparr>resp_text = ''A f(x)'', resp_groundingMetadata = None\<rparr> \<and>
   a_success
     (analyzePrompt
        (idleEnv\<lparr>generateContent :=
           (\<lambda>n p. Inr \<lparr>resp_text = ''A f(x)'', resp_groundingMetadata = None\<rparr>)\<rparr>) 0 ''q''
        [''A'', ''(''])
     = False \<and>
   a_mentions
     (analyzePrompt
        (idleEnv\<lparr>generateContent :=
           (\<lambda>n p. Inr \<lparr>resp_text = ''A f(x)'', resp_groundingMetadata = None\<rparr>)\<rparr>) 0 ''q''
        [''A'', ''(''])
     = [unmentioned ''A'', unmentioned ''('']"
proof -
  let ?env = "idleEnv\<lparr>generateContent :=
                (\<lambda>n p. Inr \<lparr>resp_text = ''A f(x)'', resp_groundingMetadata = None\<rparr>)\<rparr>"
  let ?r = "\<lparr>resp_text = ''A f(x)'', resp_groundingMetadata = None\<rparr>"
  have g: "generateContent ?env 0 ''q'' = Inr ?r" by simp
  have t: "resp_text ?r = ''A f(x)''" by simp
  from recommendation_pattern_unescaped [OF g t] g show ?thesis
    by (simp add: failureResult_def)
qed

section \<open>Positions\<close>

text \<open>The first index the first pass records for a brand.\<close>

definition firstIndexOf :: "string \<Rightarrow> string \<Rightarrow> int" where
  "firstIndexOf t brand =
     (case matchAllFrom (wholeWord brand) t 0 of [] \<Rightarrow> - 1 | i # others \<Rightarrow> int i)"

lemma matchFirst_firstIndexOf:
  "matchFirst builtin (mentionPattern brand) t =
     Inr (case matchAllFrom (wholeWord brand) t 0 of [] \<Rightarrow> None | i # others \<Rightarrow> Some i)"
  unfolding matchFirst_def matchAllIndices_mentionPattern by (simp split: list.splits)

lemma matchFirst_Some_firstIndexOf:
  "matchFirst builtin (mentionPattern brand) t = Inr (Some i) \<longleftrightarrow> firstIndexOf t brand = int i"
  unfolding matchFirst_firstIndexOf firstIndexOf_def by (auto split: list.splits)

lemma firstIndexOf_mentioned:
  "firstIndexOf t brand \<noteq> - 1 \<longleftrightarrow> matchAllFrom (wholeWord brand) t 0 \<noteq> []"
  unfolding firstIndexOf_def by (auto split: list.splits)

lemma firstIndices_eq:
  "firstIndices builtin t brands =
     Inr (map (\<lambda>b. \<lparr>bp_brand = b, bp_firstIndex = firstIndexOf t b\<rparr>) brands)"
proof (induction brands)
  case Nil
  show ?case by simp
next
  case (Cons b brands)
  show ?case
    by (simp add: Cons.IH matchFirst_firstIndexOf firstIndexOf_def split: list.splits)
qed

lemma fold_setPosition:
  assumes "distinct (map bp_brand xs)" and "''__proto__'' \<notin> bp_brand ` set xs"
  shows "(\<forall>j < length xs.
            fold (\<lambda>(item, index) m. setPosition m (bp_brand item) (index + 1))
              (zip xs [k ..< k + length xs]) m0 (bp_brand (xs ! j)) = Some (k + j + 1)) \<and>
         (\<forall>b. b \<notin> bp_brand ` set xs \<longrightarrow>
            fold (\<lambda>(item, index) m. setPosition m (bp_brand item) (index + 1))
              (zip xs [k ..< k + length xs]) m0 b = m0 b)"
  using assms
proof (induction xs arbitrary: k m0)
  case Nil
  show ?case by simp
next
  case (Cons x xs)
  let ?f = "\<lambda>(item, index) m. setPosition m (bp_brand item) (index + 1)"
  let ?m1 = "setPosition m0 (bp_brand x) (k + 1)"
  have upt: "[k ..< k + length (x # xs)] = k # [Suc k ..< Suc k + length xs]"
    by (subst upt_rec) simp
  have step: "fold ?f (zip (x # xs) [k ..< k + length (x # xs)]) m0
                = fold ?f (zip xs [Suc k ..< Suc k + length xs]) ?m1"
    unfolding upt by simp
  from Cons.prems have d: "distinct (map bp_brand xs)" and p: "''__proto__'' \<notin> bp_brand ` set xs"
    and nx: "bp_brand x \<notin> bp_brand ` set xs" and px: "bp_brand x \<noteq> ''__proto__''"
    by auto
  note IH = Cons.IH [OF d p, of "Suc k" ?m1]
  from IH have IH1: "\<And>j. j < length xs \<Longrightarrow>
      fold ?f (zip xs [Suc k ..< Suc k + length xs]) ?m1 (bp_brand (xs ! j)) = Some (Suc k + j + 1)"
    by blast
  from IH have IH2: "\<And>b. b \<notin> bp_brand ` set xs \<Longrightarrow>
      fold ?f (zip xs [Suc k ..< Suc k + length xs]) ?m1 b = ?m1 b"
    by blast
  have m1: "\<And>v. setPosition m0 (bp_brand x) v = m0(bp_brand x \<mapsto> v)"
    using px by (simp add: setPosition_def)
  show ?case
  proof (intro conjI allI impI)
    fix j assume j: "j < length (x # xs)"
    show "fold ?f (zip (x # xs) [k ..< k + length (x # xs)]) m0 (bp_brand ((x # xs) ! j))
            = Some (k + j + 1)"
    proof (cases j)
      case 0
      have "fold ?f (zip (x # xs) [k ..< k + length (x # xs)]) m0 (bp_brand x)
              = fold ?f (zip xs [Suc k ..< Suc k + length xs]) ?m1 (bp_brand x)"
        by (simp only: step)
      also have "\<dots> = ?m1 (bp_brand x)" by (rule IH2 [OF nx])
      also have "\<dots> = Some (k + 1)" by (simp add: m1)
      finally show ?thesis using 0 by simp
    next
      case (Suc j')
      with j have j': "j' < length xs" by simp
      have "fold ?f (zip (x # xs) [k ..< k + length (x # xs)]) m0 (bp_brand (xs ! j'))
              = fold ?f (zip xs [Suc k ..< Suc k + length xs]) ?m1 (bp_brand (xs ! j'))"
        by (simp only: step)
      also have "\<dots> = Some (Suc k + j' + 1)" by (rule IH1 [OF j'])
      finally show ?thesis using Suc by simp
    qed
  next
    fix b assume "b \<notin> bp_brand ` set (x # xs)"
    then have nb: "b \<notin> bp_brand ` set xs" and ne: "b \<noteq> bp_brand x" by auto
    have "fold ?f (zip (x # xs) [k ..< k + length (x # xs)]) m0 b
            = fold ?f (zip xs [Suc k ..< Suc k + length xs]) ?m1 b"
      by (simp only: step)
    also have "\<dots> = ?m1 b" by (rule IH2 [OF nb])
    also have "\<dots> = m0 b" using ne by (simp add: m1)
    finally show "fold ?f (zip (x # xs) [k ..< k + length (x # xs)]) m0 b = m0 b" .
  qed
qed

lemma buildPositionMap_nth:
  assumes "distinct (map bp_brand xs)" and "''__proto__'' \<notin> bp_brand ` set xs" and "j < length xs"
  shows "getPosition (buildPositionMap xs) (bp_brand (xs ! j)) = PRank (j + 1)"
proof -
  from fold_setPosition [OF assms(1,2), of 0 Map.empty] assms(3)
  have "buildPositionMap xs (bp_brand (xs ! j)) = Some (j + 1)"
    unfolding buildPositionMap_def by simp
  moreover have "bp_brand (xs ! j) \<noteq> ''__proto__''"
    using assms(2,3) by (metis image_eqI nth_mem)
  ultimately show ?thesis
    by (simp add: getPosition_def)
qed

lemma filter_length_list_all2:
  "list_all2 (\<lambda>b m. Q m = R b) bs ms \<Longrightarrow> length (filter Q ms) = length (filter R bs)"
  by (induction bs ms rule: list_all2_induct) auto

text \<open>What the records of a brand list without duplicates and without \<^verbatim>\<open>__proto__\<close> hold.\<close>

lemma positions_of_distinct_brands:
  assumes ex: "extractBrandMentions builtin t brands = Inr ms"
      and dist: "distinct brands" and proto: "''__proto__'' \<notin> set brands"
  defines "items \<equiv> brandPositions (map (\<lambda>b. \<lparr>bp_brand = b, bp_firstIndex = firstIndexOf t b\<rparr>) brands)"
  shows "length (filter m_mentioned ms) = length items"
    and "sorted (map bp_firstIndex items)"
    and "\<forall>m \<in> set ms. \<not> m_mentioned m \<longrightarrow> m_position m = PNull"
    and "\<forall>m \<in> set ms. m_mentioned m \<longrightarrow>
           (\<exists>j < length items. items ! j = \<lparr>bp_brand = m_brand m, bp_firstIndex = firstIndexOf t (m_brand m)\<rparr>
                               \<and> m_position m = PRank (j + 1))"
    and "\<forall>j < length items. \<exists>m \<in> set ms. m_mentioned m \<and> m_position m = PRank (j + 1)"
proof -
  let ?mk = "\<lambda>b. \<lparr>bp_brand = b, bp_firstIndex = firstIndexOf t b\<rparr>"
  let ?found = "map ?mk brands"
  let ?kept = "filter (\<lambda>b. bp_firstIndex b \<noteq> - 1) ?found"
  have items: "items = sort_key bp_firstIndex ?kept"
    unfolding items_def brandPositions_def ..
  have set_items: "set items = {?mk b | b. b \<in> set brands \<and> firstIndexOf t b \<noteq> - 1}"
    unfolding items by auto
  have brands_found: "map bp_brand ?found = brands"
    by (simp add: comp_def)
  have "distinct (map bp_brand ?kept)"
    using dist brands_found by (metis distinct_map_filter)
  then have inj: "inj_on bp_brand (set ?kept)" and dk: "distinct ?kept"
    by (simp_all add: distinct_map)
  have d_items: "distinct (map bp_brand items)"
    unfolding items using inj dk by (simp add: distinct_map)
  have p_items: "''__proto__'' \<notin> bp_brand ` set items"
    using proto unfolding set_items by auto
  from extractBrandMentions_Inr [OF ex] have
    l: "list_all2 (\<lambda>brand m. mentionFor builtin t (buildPositionMap items) brand = Inr m) brands ms"
    unfolding firstIndices_eq items_def by simp
  have each: "\<And>m. m \<in> set ms \<Longrightarrow>
      m_brand m \<in> set brands \<and> mentionFor builtin t (buildPositionMap items) (m_brand m) = Inr m"
  proof -
    fix m assume "m \<in> set ms"
    then obtain n where n: "n < length ms" "ms ! n = m" by (auto simp: in_set_conv_nth)
    with l have nb: "n < length brands"
      and mf: "mentionFor builtin t (buildPositionMap items) (brands ! n) = Inr m"
      by (auto simp: list_all2_conv_all_nth)
    from mentionFor_Inr [OF mf] have "m_brand m = brands ! n" by simp
    with nb mf show "m_brand m \<in> set brands \<and>
        mentionFor builtin t (buildPositionMap items) (m_brand m) = Inr m"
      by simp
  qed
  have men: "\<And>m. m \<in> set ms \<Longrightarrow> m_mentioned m = (firstIndexOf t (m_brand m) \<noteq> - 1)"
    using each mentionFor_Inr firstIndexOf_mentioned by metis
  have "list_all2 (\<lambda>b m. m_mentioned m = (firstIndexOf t b \<noteq> - 1)) brands ms"
    using l by (rule list_all2_mono) (metis mentionFor_Inr firstIndexOf_mentioned)
  from filter_length_list_all2 [OF this]
  have "length (filter m_mentioned ms) = length (filter (\<lambda>b. firstIndexOf t b \<noteq> - 1) brands)" .
  also have "\<dots> = length ?kept"
    by (simp add: filter_map comp_def)
  also have "\<dots> = length items"
    unfolding items by simp
  finally show "length (filter m_mentioned ms) = length items" .
  show "sorted (map bp_firstIndex items)"
    unfolding items by simp
  show "\<forall>m \<in> set ms. \<not> m_mentioned m \<longrightarrow> m_position m = PNull"
    using each mentionFor_Inr by (metis mention.select_convs(4) unmentioned_def)
  show in_items: "\<forall>m \<in> set ms. m_mentioned m \<longrightarrow>
           (\<exists>j < length items. items ! j = ?mk (m_brand m) \<and> m_position m = PRank (j + 1))"
  proof (intro ballI impI)
    fix m assume m: "m \<in> set ms" and mm: "m_mentioned m"
    from each [OF m] have b: "m_brand m \<in> set brands"
      and mf: "mentionFor builtin t (buildPositionMap items) (m_brand m) = Inr m" by simp_all
    from men [OF m] mm b have "?mk (m_brand m) \<in> set items"
      unfolding set_items by auto
    then obtain j where j: "j < length items" "items ! j = ?mk (m_brand m)"
      by (auto simp: in_set_conv_nth)
    from buildPositionMap_nth [OF d_items p_items j(1)] j(2)
    have "getPosition (buildPositionMap items) (m_brand m) = PRank (j + 1)" by simp
    with mentionFor_Inr [OF mf] mm have "m_position m = PRank (j + 1)" by simp
    with j show "\<exists>j < length items. items ! j = ?mk (m_brand m) \<and> m_position m = PRank (j + 1)"
      by blast
  qed
  show "\<forall>j < length items. \<exists>m \<in> set ms. m_mentioned m \<and> m_position m = PRank (j + 1)"
  proof (intro allI impI)
    fix j assume j: "j < length items"
    then have "items ! j \<in> set items" by simp
    then obtain b where b: "b \<in> set brands" "firstIndexOf t b \<noteq> - 1" "items ! j = ?mk b"
      unfolding set_items by blast
    from b(1) obtain n where n: "n < length brands" "brands ! n = b"
      by (auto simp: in_set_conv_nth)
    with l have nm: "n < length ms"
      and mf: "mentionFor builtin t (buildPositionMap items) b = Inr (ms ! n)"
      by (auto simp: list_all2_conv_all_nth)
    let ?m = "ms ! n"
    from nm have in_ms: "?m \<in> set ms" by simp
    from mentionFor_Inr [OF mf] have mb: "m_brand ?m = b" by simp
    from men [OF in_ms] mb b(2) have mm: "m_mentioned ?m" by simp
    from in_items in_ms mm obtain j' where j': "j' < length items" "items ! j' = ?mk (m_brand ?m)"
      "m_position ?m = PRank (j' + 1)" by blast
    from j'(2) b(3) mb have "bp_brand (items ! j') = bp_brand (items ! j)" by simp
    moreover from d_items
    have "\<forall>i < length items. \<forall>k < length items. i \<noteq> k \<longrightarrow> bp_brand (items ! i) \<noteq> bp_brand (items ! k)"
      by (simp add: distinct_conv_nth)
    ultimately have "j' = j"
      using j j'(1) by blast
    with j'(3) in_ms mm show "\<exists>m \<in> set ms. m_mentioned m \<and> m_position m = PRank (j + 1)"
      by blast
  qed
qed

text \<open>
  For a brand list whose names are pairwise distinct and do not include
  \<^verbatim>\<open>__proto__\<close>, the positions that extractBrandMentions assigns and that are not null
  are pairwise different and are exactly the ranks 1 to k, where k is the number of
  mentioned brands; and the ranks ascend with the character offset of each brand's first
  match: of two mentioned brands, the one whose first match starts earlier has the
  smaller rank.
\<close>

lemma positions_permutation:
  assumes "extractBrandMentions builtin text brands = Inr ms"
      and "distinct brands" and "''__proto__'' \<notin> set brands"
  shows "distinct (filter (\<lambda>p. p \<noteq> PNull) (map m_position ms)) \<and>
         set (filter (\<lambda>p. p \<noteq> PNull) (map m_position ms))
           = PRank ` {1 .. length (filter m_mentioned ms)} \<and>
         (\<forall>m1 \<in> set ms. \<forall>m2 \<in> set ms. \<forall>i1 i2 r1 r2.
            matchFirst builtin (mentionPattern (m_brand m1)) text = Inr (Some i1) \<and>
            matchFirst builtin (mentionPattern (m_brand m2)) text = Inr (Some i2) \<and>
            m_position m1 = PRank r1 \<and> m_position m2 = PRank r2 \<and> i1 < i2 \<longrightarrow> r1 < r2)"
proof -
  define items where
    "items = brandPositions (map (\<lambda>b. \<lparr>bp_brand = b, bp_firstIndex = firstIndexOf text b\<rparr>) brands)"
  let ?P = "filter (\<lambda>p. p \<noteq> PNull) (map m_position ms)"
  let ?n = "length (filter m_mentioned ms)"
  note facts = positions_of_distinct_brands [OF assms, folded items_def]
  have n: "?n = length items" by (rule facts(1))
  have srt: "sorted (map bp_firstIndex items)" by (rule facts(2))
  have un: "\<And>m. m \<in> set ms \<Longrightarrow> \<not> m_mentioned m \<Longrightarrow> m_position m = PNull"
    using facts(3) by blast
  have me: "\<And>m. m \<in> set ms \<Longrightarrow> m_mentioned m \<Longrightarrow>
      \<exists>j < length items. items ! j = \<lparr>bp_brand = m_brand m, bp_firstIndex = firstIndexOf text (m_brand m)\<rparr>
                          \<and> m_position m = PRank (j + 1)"
    using facts(4) by blast
  have onto: "\<And>j. j < length items \<Longrightarrow> \<exists>m \<in> set ms. m_mentioned m \<and> m_position m = PRank (j + 1)"
    using facts(5) by blast
  have iff: "\<And>m. m \<in> set ms \<Longrightarrow> (m_position m \<noteq> PNull) = m_mentioned m"
    using un me by (metis position.distinct(1))
  have setP: "set ?P = PRank ` {1 .. ?n}"
  proof (intro equalityI subsetI)
    fix p assume "p \<in> set ?P"
    then obtain m where m: "m \<in> set ms" "p = m_position m" "p \<noteq> PNull" by auto
    with iff have "m_mentioned m" by blast
    from me [OF m(1) this] m(2) n show "p \<in> PRank ` {1 .. ?n}" by auto
  next
    fix p assume "p \<in> PRank ` {1 .. ?n}"
    then obtain r where r: "p = PRank r" "1 \<le> r" "r \<le> length items" using n by auto
    then have "r - 1 < length items" by arith
    from onto [OF this] r(2) obtain m where "m \<in> set ms" "m_position m = PRank r" by auto
    with r(1) show "p \<in> set ?P" by force
  qed
  have "?P = map m_position (filter (\<lambda>m. m_position m \<noteq> PNull) ms)"
    by (simp add: filter_map comp_def)
  also have "filter (\<lambda>m. m_position m \<noteq> PNull) ms = filter m_mentioned ms"
    using iff by (intro filter_cong) simp_all
  finally have lenP: "length ?P = ?n" by simp
  have "card (set ?P) = ?n"
    unfolding setP by (simp add: card_image inj_on_def)
  with lenP have distP: "distinct ?P"
    by (simp add: card_distinct)
  have order: "\<forall>m1 \<in> set ms. \<forall>m2 \<in> set ms. \<forall>i1 i2 r1 r2.
            matchFirst builtin (mentionPattern (m_brand m1)) text = Inr (Some i1) \<and>
            matchFirst builtin (mentionPattern (m_brand m2)) text = Inr (Some i2) \<and>
            m_position m1 = PRank r1 \<and> m_position m2 = PRank r2 \<and> i1 < i2 \<longrightarrow> r1 < r2"
  proof (intro ballI allI impI)
    fix m1 m2 i1 i2 r1 r2
    assume m1: "m1 \<in> set ms" and m2: "m2 \<in> set ms"
      and h: "matchFirst builtin (mentionPattern (m_brand m1)) text = Inr (Some i1) \<and>
              matchFirst builtin (mentionPattern (m_brand m2)) text = Inr (Some i2) \<and>
              m_position m1 = PRank r1 \<and> m_position m2 = PRank r2 \<and> i1 < i2"
    from h have f1: "firstIndexOf text (m_brand m1) = int i1"
      and f2: "firstIndexOf text (m_brand m2) = int i2"
      by (simp_all add: matchFirst_Some_firstIndexOf)
    from h iff [OF m1] iff [OF m2] have "m_mentioned m1" "m_mentioned m2" by auto
    then have mm1: "m_mentioned m1" and mm2: "m_mentioned m2" by simp_all
    from me [OF m1 mm1] obtain j1 where a1: "j1 < length items"
      "items ! j1 = \<lparr>bp_brand = m_brand m1, bp_firstIndex = firstIndexOf text (m_brand m1)\<rparr>"
      "m_position m1 = PRank (j1 + 1)"
      by blast
    from me [OF m2 mm2] obtain j2 where a2: "j2 < length items"
      "items ! j2 = \<lparr>bp_brand = m_brand m2, bp_firstIndex = firstIndexOf text (m_brand m2)\<rparr>"
      "m_position m2 = PRank (j2 + 1)"
      by blast
    from a1 a2 h f1 f2 have j: "j1 < length items" "j2 < length items"
      "bp_firstIndex (items ! j1) = int i1" "bp_firstIndex (items ! j2) = int i2"
      "r1 = j1 + 1" "r2 = j2 + 1"
      by simp_all
    have "j1 < j2"
    proof (rule ccontr)
      assume "\<not> j1 < j2"
      then have "j2 \<le> j1" by simp
      with srt j(1) have "map bp_firstIndex items ! j2 \<le> map bp_firstIndex items ! j1"
        by (simp add: sorted_iff_nth_mono del: nth_map)
      with j h show False by simp
    qed
    with j show "r1 < r2" by simp
  qed
  from distP setP order show ?thesis by blast
qed

text \<open>
  Claim C5. For every response text and brand list, the positions that
  extractBrandMentions assigns and that are not null form a permutation of 1 to k, where
  k is the number of mentioned brands, and the ranks ascend with the character offset of
  each brand's first whole-word match. The program keeps the ranks in a plain object
  keyed by brand name, and departs from the claim for the brand name \<^verbatim>\<open>__proto__\<close>:
  assigning its rank stores nothing, and reading it back yields the prototype object.
  In the text \<^verbatim>\<open>A __proto__\<close> both brands are mentioned; the brand \<^verbatim>\<open>A\<close> gets
  position 1, the brand \<^verbatim>\<open>__proto__\<close> a position that is no number, and rank 2 is
  given to no record. The database client rejects such a position when the mention is
  stored.
\<close>

theorem position_of_proto_brand:
  "map_sum id (map (\<lambda>m. (m_brand m, m_mentioned m, m_position m)))
     (extractBrandMentions builtin ''A __proto__'' [''__proto__'', ''A''])
     = Inr [(''__proto__'', True, PObject), (''A'', True, PRank 1)] \<and>
   createBrandMention 0 ''b1''
     \<lparr>m_brand = ''__proto__'', m_mentioned = True, m_count = 1, m_position = PObject,
      m_context = Some ''A __proto__'', m_sentiment = Some Neutral,
      m_sentimentScore = Some 0, m_isRecommended = False\<rparr>
     \<lparr>s_projects = Map.empty, s_runs = Map.empty, s_promptResults = [], s_brandMentions = [],
      s_citations = [], s_snapshots = [], s_nextId = 1, s_calls = 0, s_events = []\<rparr>
     = Inl (Failure ''Invalid value provided for position'')"
proof -
  have "map_sum id (map (\<lambda>m. (m_brand m, m_mentioned m, m_position m)))
     (extractBrandMentions builtin ''A __proto__'' [''__proto__'', ''A''])
     = Inr [(''__proto__'', True, PObject), (''A'', True, PRank 1)]"
    by code_simp
  then show ?thesis by (simp add: createBrandMention_def)
qed

section \<open>Runs\<close>

text \<open>
  A project with one brand and one active prompt, a pending run for it, and an
  environment in which the model answers and the fourth call of the database client, the
  one that creates the brand mention, throws.
\<close>

definition exampleProject :: project where
  "exampleProject =
     \<lparr>pj_brands = [\<lparr>b_id = ''b1'', b_name = ''Acme''\<rparr>],
      pj_prompts = [\<lparr>p_id = ''p1'', p_text = ''best tools'', p_isActive = True\<rparr>]\<rparr>"

definition exampleState :: state where
  "exampleState =
     \<lparr>s_projects = [''pj'' \<mapsto> exampleProject],
      s_runs = [''run'' \<mapsto> \<lparr>ar_status = Pending, ar_totalPrompts = Some 1, ar_processedPrompts = 0,
                           ar_startedAt = None, ar_completedAt = None\<rparr>],
      s_promptResults = [], s_brandMentions = [], s_citations = [], s_snapshots = [],
      s_nextId = 0, s_calls = 0, s_events = []\<rparr>"

definition faultyEnv :: env where
  "faultyEnv =
     idleEnv\<lparr>generateContent := (\<lambda>n p. Inr \<lparr>resp_text = ''ok'', resp_groundingMetadata = None\<rparr>),
              dbFault := (\<lambda>k. if k = 3 then Some ''database is locked'' else None)\<rparr>"

text \<open>
  Claim C1. For every prompt whose analysis ends with the error field set on its prompt
  result, in particular for every failure of the call to the model, the orchestrator
  persists no brand mention and no citation for that prompt result. The program departs
  from the claim: analyzePrompt catches the failure and returns it as a result that lists
  every brand as unmentioned, and the \<^verbatim>\<open>try\<close> block of runAnalysis, which the
  failure does not leave, stores the error on the prompt result and then one brand
  mention per listed brand. Only the \<^verbatim>\<open>catch\<close> block of runAnalysis stores an error
  without rows.
\<close>

theorem error_result_with_mentions:
  "fst (runAnalysis idleEnv True ''pj'' ''run'' exampleState)
     = Inr [\<lparr>re_promptId = ''p1'', re_success = False, re_error = Some ''quota exceeded'',
             re_result = Some (failureResult idleEnv 0 ''best tools'' [''Acme''] (Failure ''quota exceeded''))\<rparr>] \<and>
   s_promptResults (snd (runAnalysis idleEnv True ''pj'' ''run'' exampleState))
     = [\<lparr>r_id = 0, r_analysisRunId = ''run'', r_promptId = ''p1'', r_rawResponse = None,
         r_responseLength = None, r_processingTimeMs = Some 0, r_error = Some ''quota exceeded''\<rparr>] \<and>
   s_brandMentions (snd (runAnalysis idleEnv True ''pj'' ''run'' exampleState))
     = [\<lparr>bm_promptResultId = 0, bm_brandId = ''b1'', bm_position = None, bm_sentiment = None,
         bm_sentimentScore = None, bm_contextSnippet = None, bm_isRecommended = False\<rparr>] \<and>
   s_citations (snd (runAnalysis idleEnv True ''pj'' ''run'' exampleState)) = []"
  by code_simp

text \<open>
  Claim C2. In every analysis run, after each prompt is handled, whether its analysis
  succeeded or failed, the counter processedPrompts of the run goes up by exactly 1 and
  one progress notification is emitted to the progress observer. The program departs from
  the claim where the \<^verbatim>\<open>try\<close> block throws: the counter and the notification are its
  last two steps, and the \<^verbatim>\<open>catch\<close> block has neither. In the run below the write
  of the brand mention throws: the prompt is recorded as failed, the run completes with
  the counter at 0 of 1, and the observer receives the completion only. A failure of the
  model alone does not leave the \<^verbatim>\<open>try\<close> block, and the counter reaches 1.
\<close>

theorem no_progress_after_caught_error:
  "s_promptResults (snd (runAnalysis faultyEnv True ''pj'' ''run'' exampleState))
     = [\<lparr>r_id = 0, r_analysisRunId = ''run'', r_promptId = ''p1'', r_rawResponse = Some ''ok'',
         r_responseLength = Some 2, r_processingTimeMs = Some 0, r_error = None\<rparr>,
        \<lparr>r_id = 1, r_analysisRunId = ''run'', r_promptId = ''p1'', r_rawResponse = None,
         r_responseLength = None, r_processingTimeMs = None, r_error = Some ''database is locked''\<rparr>] \<and>
   s_runs (snd (runAnalysis faultyEnv True ''pj'' ''run'' exampleState)) ''run''
     = Some \<lparr>ar_status = Completed, ar_totalPrompts = Some 1, ar_processedPrompts = 0,
              ar_startedAt = Some 1, ar_completedAt = Some 8\<rparr> \<and>
   s_events (snd (runAnalysis faultyEnv True ''pj'' ''run'' exampleState)) = [Complete ''run''] \<and>
   s_runs (snd (runAnalysis idleEnv True ''pj'' ''run'' exampleState)) ''run''
     = Some \<lparr>ar_status = Completed, ar_totalPrompts = Some 1, ar_processedPrompts = 1,
              ar_startedAt = Some 1, ar_completedAt = Some 8\<rparr> \<and>
   s_events (snd (runAnalysis idleEnv True ''pj'' ''run'' exampleState))
     = [Progress 1 1 ''best tools'', Complete ''run'']"
  by code_simp

section \<open>Share of voice\<close>

text \<open>
  The state of the database a run starts from keeps the primary key of the snapshots:
  the ids are pairwise distinct and below the next fresh id. \<open>runSnapshots runId st\<close>
  are the snapshots of a run, as \<^verbatim>\<open>findMany\<close> returns them, and \<open>shareBefore st s\<close> is
  the share of voice that the snapshot of the id of \<open>s\<close> has in the state \<open>st\<close>,
  \<^verbatim>\<open>null\<close> when there is none.
\<close>

definition primaryKeys :: "state \<Rightarrow> bool" where
  "primaryKeys st =
     (distinct (map ms_id (s_snapshots st)) \<and> (\<forall>s \<in> set (s_snapshots st). ms_id s < s_nextId st))"

definition runSnapshots :: "string \<Rightarrow> state \<Rightarrow> metricsSnapshot list" where
  "runSnapshots runId st = filter (\<lambda>s. ms_analysisRunId s = runId) (s_snapshots st)"

definition shareBefore :: "state \<Rightarrow> metricsSnapshot \<Rightarrow> real option" where
  "shareBefore st s =
     (case find (\<lambda>s0. ms_id s0 = ms_id s) (s_snapshots st) of
        Some s0 \<Rightarrow> ms_shareOfVoice s0
      | None \<Rightarrow> None)"

text \<open>
  What the upserts keep: the primary key, and for every snapshot the share of voice and
  the run it had before; a created snapshot has a fresh id and no share of voice.
\<close>

definition sharesKept :: "state \<Rightarrow> state \<Rightarrow> bool" where
  "sharesKept st cur =
     (primaryKeys cur \<and> s_nextId st \<le> s_nextId cur \<and>
      (\<forall>s \<in> set (s_snapshots cur). ms_shareOfVoice s = shareBefore st s) \<and>
      (\<forall>s \<in> set (s_snapshots cur).
         ms_id s < s_nextId st \<longrightarrow>
           (\<exists>s0 \<in> set (s_snapshots st).
              ms_id s0 = ms_id s \<and> ms_analysisRunId s0 = ms_analysisRunId s)))"

definition hasRow :: "string \<Rightarrow> string \<Rightarrow> state \<Rightarrow> bool" where
  "hasRow runId brandId st =
     (\<exists>s \<in> set (s_snapshots st). ms_analysisRunId s = runId \<and> ms_brandId s = brandId)"

text \<open>The effect of one \<^verbatim>\<open>metricsSnapshot.update\<close> on the table, and the value written.\<close>

definition setShare :: "nat \<Rightarrow> real \<Rightarrow> metricsSnapshot list \<Rightarrow> metricsSnapshot list" where
  "setShare k v rows = map (\<lambda>s. if ms_id s = k then s\<lparr>ms_shareOfVoice := Some v\<rparr> else s) rows"

definition shareOf :: "nat \<Rightarrow> metricsSnapshot \<Rightarrow> real" where
  "shareOf totalCount s = real (ms_mentionCount s) / real totalCount * 100"

lemma prismaCall_Inr:
  assumes "prismaCall env operation st = (Inr a, st')"
  shows "operation (st\<lparr>s_calls := s_calls st + 1\<rparr>) = Inr (a, st')"
  using assms unfolding prismaCall_def Let_def
  by (auto split: option.splits sum.splits)

lemma forEach_Cons_Inr:
  assumes "forEach body (x # xs) st = (Inr (), st')"
  shows "\<exists>s1. body x st = (Inr (), s1) \<and> forEach body xs s1 = (Inr (), st')"
  using assms by (auto split: prod.splits sum.splits)

lemma forEach_invariant:
  assumes "forEach body xs st = (Inr (), st')" and "I st"
    and "\<And>x s s'. I s \<Longrightarrow> body x s = (Inr (), s') \<Longrightarrow> I s'"
  shows "I st'"
  using assms(1,2)
proof (induction xs arbitrary: st)
  case Nil
  then show ?case by simp
next
  case (Cons x xs)
  from forEach_Cons_Inr [OF Cons.prems(1)] obtain s1 where
    s1: "body x st = (Inr (), s1)" "forEach body xs s1 = (Inr (), st')" by blast
  from assms(3) [OF Cons.prems(2) s1(1)] have "I s1" .
  from Cons.IH [OF s1(2) this] show ?case .
qed

lemma forEach_post:
  assumes "forEach body xs st = (Inr (), st')"
    and "\<And>x s s'. body x s = (Inr (), s') \<Longrightarrow> Q x s'"
    and "\<And>x y s s'. Q x s \<Longrightarrow> body y s = (Inr (), s') \<Longrightarrow> Q x s'"
  shows "\<forall>x \<in> set xs. Q x st'"
  using assms(1)
proof (induction xs arbitrary: st)
  case Nil
  show ?case by simp
next
  case (Cons x xs)
  from forEach_Cons_Inr [OF Cons.prems(1)] obtain s1 where
    s1: "body x st = (Inr (), s1)" "forEach body xs s1 = (Inr (), st')" by blast
  from assms(2) [OF s1(1)] have "Q x s1" .
  from forEach_invariant [of body xs s1 st' "Q x", OF s1(2) this] assms(3)
  have "Q x st'" by blast
  with Cons.IH [OF s1(2)] show ?case by simp
qed

lemma find_distinct:
  "distinct (map f xs) \<Longrightarrow> s \<in> set xs \<Longrightarrow> find (\<lambda>y. f y = f s) xs = Some s"
  by (induction xs) auto

lemma sharesKept_refl: "primaryKeys st \<Longrightarrow> sharesKept st st"
  unfolding sharesKept_def primaryKeys_def shareBefore_def
  by (auto simp: find_distinct)

lemma shareBefore_id: "ms_id a = ms_id b \<Longrightarrow> shareBefore st a = shareBefore st b"
  by (simp add: shareBefore_def)

lemma shareBefore_new:
  assumes "primaryKeys st" and "s_nextId st \<le> ms_id a"
  shows "shareBefore st a = None"
proof -
  have "find (\<lambda>s0. ms_id s0 = ms_id a) (s_snapshots st) = None"
    using assms unfolding primaryKeys_def find_None_iff by fastforce
  then show ?thesis by (simp add: shareBefore_def)
qed

lemma sharesKept_upsert:
  assumes pk: "primaryKeys st" and k: "sharesKept st cur"
    and u: "upsertSnapshot d (cur\<lparr>s_calls := c\<rparr>) = Inr ((), cur')"
  shows "sharesKept st cur'"
proof (cases "list_ex (sameKey d) (s_snapshots cur)")
  case True
  let ?g = "\<lambda>s. if sameKey d s then d\<lparr>ms_id := ms_id s, ms_shareOfVoice := ms_shareOfVoice s\<rparr> else s"
  from u True have c1: "s_snapshots cur' = map ?g (s_snapshots cur)"
    and c2: "s_nextId cur' = s_nextId cur"
    by (auto simp: upsertSnapshot_def)
  from k have k1: "distinct (map ms_id (s_snapshots cur))"
    and k2: "\<forall>s \<in> set (s_snapshots cur). ms_id s < s_nextId cur"
    and k3: "s_nextId st \<le> s_nextId cur"
    and k4: "\<forall>s \<in> set (s_snapshots cur). ms_shareOfVoice s = shareBefore st s"
    and k5: "\<forall>s \<in> set (s_snapshots cur).
         ms_id s < s_nextId st \<longrightarrow>
           (\<exists>s0 \<in> set (s_snapshots st).
              ms_id s0 = ms_id s \<and> ms_analysisRunId s0 = ms_analysisRunId s)"
    by (simp_all add: sharesKept_def primaryKeys_def)
  have g: "ms_id (?g s) = ms_id s" "ms_shareOfVoice (?g s) = ms_shareOfVoice s"
    "ms_analysisRunId (?g s) = ms_analysisRunId s" for s
    by (simp_all add: sameKey_def)
  have ids: "map ms_id (map ?g rows) = map ms_id rows" for rows
    by (induction rows) simp_all
  have bound: "\<forall>s \<in> set (s_snapshots cur'). ms_id s < s_nextId cur'"
  proof
    fix s assume "s \<in> set (s_snapshots cur')"
    then obtain s0 where s0: "s0 \<in> set (s_snapshots cur)" "s = ?g s0" unfolding c1 by auto
    from k2 s0(1) have "ms_id s0 < s_nextId cur" by blast
    with s0(2) g(1) [of s0] show "ms_id s < s_nextId cur'" unfolding c2 by simp
  qed
  have d1: "distinct (map ms_id (s_snapshots cur'))"
    unfolding c1 ids [of "s_snapshots cur"] by (rule k1)
  have shares: "\<forall>s \<in> set (s_snapshots cur'). ms_shareOfVoice s = shareBefore st s"
  proof
    fix s assume "s \<in> set (s_snapshots cur')"
    then obtain s0 where s0: "s0 \<in> set (s_snapshots cur)" "s = ?g s0" unfolding c1 by auto
    from k4 s0(1) have e: "ms_shareOfVoice s0 = shareBefore st s0" by blast
    from s0(2) g [of s0] have "ms_id s = ms_id s0" "ms_shareOfVoice s = ms_shareOfVoice s0"
      by simp_all
    with e shareBefore_id [of s s0 st] show "ms_shareOfVoice s = shareBefore st s"
      by simp
  qed
  have runs: "\<forall>s \<in> set (s_snapshots cur').
         ms_id s < s_nextId st \<longrightarrow>
           (\<exists>s0 \<in> set (s_snapshots st).
              ms_id s0 = ms_id s \<and> ms_analysisRunId s0 = ms_analysisRunId s)"
  proof (intro ballI impI)
    fix s assume "s \<in> set (s_snapshots cur')" and lt: "ms_id s < s_nextId st"
    then obtain s0 where s0: "s0 \<in> set (s_snapshots cur)" "s = ?g s0" unfolding c1 by auto
    from s0(2) g [of s0] have e: "ms_id s = ms_id s0" "ms_analysisRunId s = ms_analysisRunId s0"
      by simp_all
    from k5 s0(1) lt e(1) obtain s1 where
      "s1 \<in> set (s_snapshots st)" "ms_id s1 = ms_id s0" "ms_analysisRunId s1 = ms_analysisRunId s0"
      by auto
    with e show "\<exists>s0 \<in> set (s_snapshots st).
              ms_id s0 = ms_id s \<and> ms_analysisRunId s0 = ms_analysisRunId s"
      by auto
  qed
  from k3 have "s_nextId st \<le> s_nextId cur'" unfolding c2 .
  with d1 bound shares runs show ?thesis
    unfolding sharesKept_def primaryKeys_def by blast
next
  case False
  let ?new = "d\<lparr>ms_id := s_nextId cur, ms_shareOfVoice := None\<rparr>"
  from u False have c1: "s_snapshots cur' = s_snapshots cur @ [?new]"
    and c2: "s_nextId cur' = s_nextId cur + 1"
    by (auto simp: upsertSnapshot_def)
  from k have k1: "distinct (map ms_id (s_snapshots cur))"
    and k2: "\<forall>s \<in> set (s_snapshots cur). ms_id s < s_nextId cur"
    and k3: "s_nextId st \<le> s_nextId cur"
    and k4: "\<forall>s \<in> set (s_snapshots cur). ms_shareOfVoice s = shareBefore st s"
    and k5: "\<forall>s \<in> set (s_snapshots cur).
         ms_id s < s_nextId st \<longrightarrow>
           (\<exists>s0 \<in> set (s_snapshots st).
              ms_id s0 = ms_id s \<and> ms_analysisRunId s0 = ms_analysisRunId s)"
    by (simp_all add: sharesKept_def primaryKeys_def)
  have n: "ms_id ?new = s_nextId cur" "ms_shareOfVoice ?new = None" by simp_all
  have "s_nextId cur \<notin> ms_id ` set (s_snapshots cur)"
    using k2 by auto
  with k1 n(1) have d1: "distinct (map ms_id (s_snapshots cur'))"
    unfolding c1 by simp
  have bound: "\<forall>s \<in> set (s_snapshots cur'). ms_id s < s_nextId cur'"
  proof
    fix s assume "s \<in> set (s_snapshots cur')"
    then consider "s \<in> set (s_snapshots cur)" | "s = ?new" unfolding c1 by auto
    then show "ms_id s < s_nextId cur'"
    proof cases
      case 1
      with k2 have "ms_id s < s_nextId cur" by blast
      then show ?thesis unfolding c2 by simp
    next
      case 2
      then show ?thesis unfolding c2 by simp
    qed
  qed
  from k3 n(1) have "s_nextId st \<le> ms_id ?new" by simp
  from shareBefore_new [OF pk this] have sn: "shareBefore st ?new = None" .
  have shares: "\<forall>s \<in> set (s_snapshots cur'). ms_shareOfVoice s = shareBefore st s"
  proof
    fix s assume "s \<in> set (s_snapshots cur')"
    then consider "s \<in> set (s_snapshots cur)" | "s = ?new" unfolding c1 by auto
    then show "ms_shareOfVoice s = shareBefore st s"
    proof cases
      case 1
      with k4 show ?thesis by blast
    next
      case 2
      with sn n(2) show ?thesis by simp
    qed
  qed
  have runs: "\<forall>s \<in> set (s_snapshots cur').
         ms_id s < s_nextId st \<longrightarrow>
           (\<exists>s0 \<in> set (s_snapshots st).
              ms_id s0 = ms_id s \<and> ms_analysisRunId s0 = ms_analysisRunId s)"
  proof (intro ballI impI)
    fix s assume "s \<in> set (s_snapshots cur')" and lt: "ms_id s < s_nextId st"
    then consider "s \<in> set (s_snapshots cur)" | "s = ?new" unfolding c1 by auto
    then show "\<exists>s0 \<in> set (s_snapshots st).
              ms_id s0 = ms_id s \<and> ms_analysisRunId s0 = ms_analysisRunId s"
    proof cases
      case 1
      with k5 lt show ?thesis by blast
    next
      case 2
      with n(1) k3 lt show ?thesis by simp
    qed
  qed
  from k3 have "s_nextId st \<le> s_nextId cur'" unfolding c2 by simp
  with d1 bound shares runs show ?thesis
    unfolding sharesKept_def primaryKeys_def by blast
qed

lemma upsert_hasRow:
  assumes "upsertSnapshot d s = Inr ((), s')"
  shows "hasRow (ms_analysisRunId d) (ms_brandId d) s'"
proof (cases "list_ex (sameKey d) (s_snapshots s)")
  case True
  then obtain x where x: "x \<in> set (s_snapshots s)" "sameKey d x" by (auto simp: list_ex_iff)
  let ?g = "\<lambda>s. if sameKey d s then d\<lparr>ms_id := ms_id s, ms_shareOfVoice := ms_shareOfVoice s\<rparr> else s"
  from assms True have c: "s_snapshots s' = map ?g (s_snapshots s)"
    by (auto simp: upsertSnapshot_def)
  from x have "?g x \<in> set (s_snapshots s')" unfolding c by (simp del: if_split)
  moreover from x(2) have "ms_analysisRunId (?g x) = ms_analysisRunId d \<and> ms_brandId (?g x) = ms_brandId d"
    by simp
  ultimately show ?thesis unfolding hasRow_def by blast
next
  case False
  with assms have "s_snapshots s' = s_snapshots s @ [d\<lparr>ms_id := s_nextId s, ms_shareOfVoice := None\<rparr>]"
    by (auto simp: upsertSnapshot_def)
  then show ?thesis by (simp add: hasRow_def)
qed

lemma upsert_keeps:
  assumes "upsertSnapshot d s = Inr ((), s')" and "hasRow r b (s\<lparr>s_calls := c\<rparr>)"
  shows "hasRow r b s'"
proof -
  from assms(2) obtain x where x: "x \<in> set (s_snapshots s)" "ms_analysisRunId x = r" "ms_brandId x = b"
    by (auto simp: hasRow_def)
  show ?thesis
  proof (cases "list_ex (sameKey d) (s_snapshots s)")
    case True
    let ?g = "\<lambda>s. if sameKey d s then d\<lparr>ms_id := ms_id s, ms_shareOfVoice := ms_shareOfVoice s\<rparr> else s"
    from assms True have c: "s_snapshots s' = map ?g (s_snapshots s)"
      by (auto simp: upsertSnapshot_def)
    from x have "?g x \<in> set (s_snapshots s')" unfolding c by (simp del: if_split)
    moreover from x have "ms_analysisRunId (?g x) = r \<and> ms_brandId (?g x) = b"
      by (simp add: sameKey_def)
    ultimately show ?thesis unfolding hasRow_def by blast
  next
    case False
    with assms have "s_snapshots s' = s_snapshots s @ [d\<lparr>ms_id := s_nextId s, ms_shareOfVoice := None\<rparr>]"
      by (auto simp: upsertSnapshot_def)
    with x show ?thesis by (auto simp: hasRow_def)
  qed
qed

lemma brandMetrics_key:
  "ms_analysisRunId (brandMetrics runId v b) = runId \<and> ms_brandId (brandMetrics runId v b) = b_id b"
  by (simp add: brandMetrics_def Let_def)

lemma updateLoop:
  assumes "forEach (\<lambda>sn. prismaCall env (updateShareOfVoice (ms_id sn) (f sn))) xs s = (Inr (), s')"
  shows "s_snapshots s' = fold (\<lambda>sn. setShare (ms_id sn) (f sn)) xs (s_snapshots s)"
  using assms
proof (induction xs arbitrary: s)
  case Nil
  then show ?case by simp
next
  case (Cons x xs)
  from forEach_Cons_Inr [OF Cons.prems] obtain s1 where
    s1: "prismaCall env (updateShareOfVoice (ms_id x) (f x)) s = (Inr (), s1)"
        "forEach (\<lambda>sn. prismaCall env (updateShareOfVoice (ms_id sn) (f sn))) xs s1 = (Inr (), s')"
    by blast
  from prismaCall_Inr [OF s1(1)]
  have "s_snapshots s1 = setShare (ms_id x) (f x) (s_snapshots s)"
    by (auto simp: updateShareOfVoice_def setShare_def split: if_splits)
  with Cons.IH [OF s1(2)] show ?case by simp
qed

lemma fold_setShare:
  assumes "distinct (map ms_id rows)" and "set xs \<subseteq> set rows"
  shows "fold (\<lambda>sn. setShare (ms_id sn) (shareOf t sn)) xs
           (map (\<lambda>s. if s \<in> A then s\<lparr>ms_shareOfVoice := Some (shareOf t s)\<rparr> else s) rows)
         = map (\<lambda>s. if s \<in> A \<union> set xs then s\<lparr>ms_shareOfVoice := Some (shareOf t s)\<rparr> else s) rows"
  using assms(2)
proof (induction xs arbitrary: A)
  case Nil
  show ?case by simp
next
  case (Cons x xs)
  from Cons.prems have x: "x \<in> set rows" and xs: "set xs \<subseteq> set rows" by simp_all
  have inj: "s = x" if "s \<in> set rows" "ms_id s = ms_id x" for s
    using assms(1) that x by (meson distinct_map inj_onD)
  have pt: "(if ms_id (if s \<in> A then s\<lparr>ms_shareOfVoice := Some (shareOf t s)\<rparr> else s) = ms_id x
           then (if s \<in> A then s\<lparr>ms_shareOfVoice := Some (shareOf t s)\<rparr> else s)
                  \<lparr>ms_shareOfVoice := Some (shareOf t x)\<rparr>
           else (if s \<in> A then s\<lparr>ms_shareOfVoice := Some (shareOf t s)\<rparr> else s))
          = (if s \<in> insert x A then s\<lparr>ms_shareOfVoice := Some (shareOf t s)\<rparr> else s)"
    if m: "s \<in> set rows" for s
  proof (cases "ms_id s = ms_id x")
    case True
    from inj [OF m True] show ?thesis by simp
  next
    case False
    then have "s \<noteq> x" by auto
    with False show ?thesis by simp
  qed
  have step: "setShare (ms_id x) (shareOf t x)
                (map (\<lambda>s. if s \<in> A then s\<lparr>ms_shareOfVoice := Some (shareOf t s)\<rparr> else s) rows)
              = map (\<lambda>s. if s \<in> insert x A then s\<lparr>ms_shareOfVoice := Some (shareOf t s)\<rparr> else s) rows"
    unfolding setShare_def map_map comp_def
    by (rule map_cong [OF refl]) (rule pt)
  show ?case
    using Cons.IH [OF xs, of "insert x A"] by (simp add: step)
qed

lemma filter_map_share:
  "filter (\<lambda>s. ms_analysisRunId s = r)
     (map (\<lambda>s. if ms_analysisRunId s = r then s\<lparr>ms_shareOfVoice := Some (g s)\<rparr> else s) rows)
   = map (\<lambda>s. s\<lparr>ms_shareOfVoice := Some (g s)\<rparr>) (filter (\<lambda>s. ms_analysisRunId s = r) rows)"
  by (induction rows) auto

lemma sum_shares:
  assumes "0 < sum_list (map ms_mentionCount rows)"
  shows "sum_list (map (shareOf (sum_list (map ms_mentionCount rows))) rows) = 100"
proof -
  let ?t = "sum_list (map ms_mentionCount rows)"
  have "sum_list (map (shareOf k) xs) = real (sum_list (map ms_mentionCount xs)) / real k * 100" for k xs
    by (induction xs) (simp_all add: shareOf_def add_divide_distrib distrib_right)
  then have e: "sum_list (map (shareOf ?t) rows) = real ?t / real ?t * 100" .
  have q: "real k / real k * 100 = (100::real)" if "0 < k" for k :: nat
    using that by simp
  show ?thesis unfolding e by (rule q [OF assms])
qed


lemma sharesKept_calls: "sharesKept st (cur\<lparr>s_calls := c\<rparr>) = sharesKept st cur"
  by (simp add: sharesKept_def primaryKeys_def)

lemma hasRow_calls: "hasRow r b (cur\<lparr>s_calls := c\<rparr>) = hasRow r b cur"
  by (simp add: hasRow_def)

lemma calculateMetrics_Inr:
  assumes "calculateMetrics env runId project st = (Inr (), st')"
  shows "\<exists>promptResults st1 st2 totalMentions st3.
    prismaCall env (findPromptResults runId) st = (Inr promptResults, st1) \<and>
    forEach (\<lambda>b. prismaCall env (upsertSnapshot (brandMetrics runId (filter noError promptResults) b)))
       (pj_brands project) st1 = (Inr (), st2) \<and>
    prismaCall env (sumMentionCount runId) st2 = (Inr totalMentions, st3) \<and>
    (0 < (case totalMentions of Some k \<Rightarrow> k | None \<Rightarrow> 0) \<longrightarrow>
       (\<exists>found st4. prismaCall env (findSnapshots runId) st3 = (Inr found, st4) \<and>
         forEach (\<lambda>snapshot. prismaCall env
                    (updateShareOfVoice (ms_id snapshot)
                       (real (ms_mentionCount snapshot) /
                        real (case totalMentions of Some k \<Rightarrow> k | None \<Rightarrow> 0) * 100)))
           found st4 = (Inr (), st'))) \<and>
    (\<not> 0 < (case totalMentions of Some k \<Rightarrow> k | None \<Rightarrow> 0) \<longrightarrow> st' = st3)"
  using assms unfolding calculateMetrics_def Let_def
  by (auto split: prod.splits sum.splits if_splits)

lemma map_filter_share:
  "List.map_filter ms_shareOfVoice (map (\<lambda>s. s\<lparr>ms_shareOfVoice := Some (g s)\<rparr>) xs) = map g xs"
  by (induction xs) (simp_all add: List.map_filter_simps)

text \<open>
  Claim C3, as amended. For every completed aggregation of a run, on a database that keeps
  the primary key of its snapshots: every brand of the project has a snapshot of the run;
  if the run-wide total of mentionCount is greater than 0, the shareOfVoice of each
  snapshot of the run is mentionCount / total x 100, and these values sum to 100; if the
  total is 0, no shareOfVoice is written: each snapshot of the run has the value it had
  before the aggregation, which is \<^verbatim>\<open>null\<close> for a snapshot the aggregation created, so
  that every shareOfVoice of a run aggregated for the first time is \<^verbatim>\<open>null\<close>, while
  the snapshots themselves exist.
\<close>

theorem share_of_voice:
  assumes pk: "primaryKeys st"
      and cm: "calculateMetrics env runId project st = (Inr (), st')"
  shows "(\<forall>b \<in> set (pj_brands project). \<exists>s \<in> set (runSnapshots runId st'). ms_brandId s = b_id b) \<and>
         (0 < sum_list (map ms_mentionCount (runSnapshots runId st')) \<longrightarrow>
            (\<forall>s \<in> set (runSnapshots runId st').
               ms_shareOfVoice s
                 = Some (real (ms_mentionCount s) /
                         real (sum_list (map ms_mentionCount (runSnapshots runId st'))) * 100)) \<and>
            sum_list (List.map_filter ms_shareOfVoice (runSnapshots runId st')) = 100) \<and>
         (sum_list (map ms_mentionCount (runSnapshots runId st')) = 0 \<longrightarrow>
            (\<forall>s \<in> set (runSnapshots runId st'). ms_shareOfVoice s = shareBefore st s) \<and>
            (runSnapshots runId st = [] \<longrightarrow>
               (\<forall>s \<in> set (runSnapshots runId st'). ms_shareOfVoice s = None)))"
proof -
  from calculateMetrics_Inr [OF cm] obtain promptResults st1 st2 totalMentions st3 where
    p1: "prismaCall env (findPromptResults runId) st = (Inr promptResults, st1)"
    and p2: "forEach (\<lambda>b. prismaCall env (upsertSnapshot (brandMetrics runId (filter noError promptResults) b)))
       (pj_brands project) st1 = (Inr (), st2)"
    and p3: "prismaCall env (sumMentionCount runId) st2 = (Inr totalMentions, st3)"
    and p4: "0 < (case totalMentions of Some k \<Rightarrow> k | None \<Rightarrow> 0) \<longrightarrow>
       (\<exists>found st4. prismaCall env (findSnapshots runId) st3 = (Inr found, st4) \<and>
         forEach (\<lambda>snapshot. prismaCall env
                    (updateShareOfVoice (ms_id snapshot)
                       (real (ms_mentionCount snapshot) /
                        real (case totalMentions of Some k \<Rightarrow> k | None \<Rightarrow> 0) * 100)))
           found st4 = (Inr (), st'))"
    and p5: "\<not> 0 < (case totalMentions of Some k \<Rightarrow> k | None \<Rightarrow> 0) \<longrightarrow> st' = st3"
    by (elim exE conjE) (rule that)
  let ?P = "\<lambda>s. ms_analysisRunId s = runId"
  let ?body = "\<lambda>b. prismaCall env (upsertSnapshot (brandMetrics runId (filter noError promptResults) b))"
  define t where "t = (case totalMentions of Some k \<Rightarrow> k | None \<Rightarrow> 0)"
  let ?upd = "\<lambda>s. s\<lparr>ms_shareOfVoice := Some (shareOf t s)\<rparr>"
  from prismaCall_Inr [OF p1] have st1: "st1 = st\<lparr>s_calls := s_calls st + 1\<rparr>"
    by (simp add: findPromptResults_def)
  from sharesKept_refl [OF pk] have k1: "sharesKept st st1"
    unfolding st1 sharesKept_calls .
  have k2: "sharesKept st st2"
  proof (rule forEach_invariant [of ?body "pj_brands project" st1 st2 "sharesKept st", OF p2 k1])
    fix x s s'
    assume i: "sharesKept st s" and b: "?body x s = (Inr (), s')"
    from i have "sharesKept st s" .
    from sharesKept_upsert [OF pk this prismaCall_Inr [OF b]] show "sharesKept st s'" .
  qed
  have rows2: "\<forall>b \<in> set (pj_brands project). hasRow runId (b_id b) st2"
  proof (rule forEach_post [of ?body "pj_brands project" st1 st2 "\<lambda>b. hasRow runId (b_id b)", OF p2])
    fix x s s'
    assume b: "?body x s = (Inr (), s')"
    from upsert_hasRow [OF prismaCall_Inr [OF b]] brandMetrics_key [of runId _ x]
    show "hasRow runId (b_id x) s'" by simp
  next
    fix x y s s'
    assume h: "hasRow runId (b_id x) s" and b: "?body y s = (Inr (), s')"
    from h have "hasRow runId (b_id x) (s\<lparr>s_calls := s_calls s + 1\<rparr>\<lparr>s_calls := s_calls s + 1\<rparr>)"
      by (simp add: hasRow_def)
    from upsert_keeps [OF prismaCall_Inr [OF b] this] show "hasRow runId (b_id x) s'" .
  qed
  from prismaCall_Inr [OF p3] have st3: "st3 = st2\<lparr>s_calls := s_calls st2 + 1\<rparr>"
    and tm: "totalMentions = (if runSnapshots runId st2 = [] then None
                              else Some (sum_list (map ms_mentionCount (runSnapshots runId st2))))"
    by (auto simp: sumMentionCount_def Let_def runSnapshots_def)
  have t: "t = sum_list (map ms_mentionCount (runSnapshots runId st2))"
    unfolding t_def tm by simp
  show ?thesis
  proof (cases "0 < t")
    case False
    with p5 have e: "st' = st3" by (simp add: t_def)
    have r: "runSnapshots runId st' = runSnapshots runId st2"
      unfolding e st3 by (simp add: runSnapshots_def)
    have s: "s_snapshots st' = s_snapshots st2"
      unfolding e st3 by simp
    from rows2 have c1: "\<forall>b \<in> set (pj_brands project). \<exists>s \<in> set (runSnapshots runId st'). ms_brandId s = b_id b"
      unfolding r by (auto simp: hasRow_def runSnapshots_def)
    from False have z: "\<not> 0 < sum_list (map ms_mentionCount (runSnapshots runId st'))"
      unfolding r t .
    from k2 have c3: "\<forall>s \<in> set (runSnapshots runId st'). ms_shareOfVoice s = shareBefore st s"
      unfolding r by (auto simp: sharesKept_def runSnapshots_def)
    have c4: "\<forall>s \<in> set (runSnapshots runId st'). ms_shareOfVoice s = None"
      if fresh: "runSnapshots runId st = []"
    proof
      fix s assume m: "s \<in> set (runSnapshots runId st')"
      then have m2: "s \<in> set (s_snapshots st2)" "ms_analysisRunId s = runId"
        unfolding r by (simp_all add: runSnapshots_def)
      have "\<not> ms_id s < s_nextId st"
      proof
        assume "ms_id s < s_nextId st"
        with k2 m2(1) obtain s0 where
          "s0 \<in> set (s_snapshots st)" "ms_analysisRunId s0 = ms_analysisRunId s"
          unfolding sharesKept_def by blast
        with m2(2) have "s0 \<in> set (runSnapshots runId st)" by (simp add: runSnapshots_def)
        with fresh show False by simp
      qed
      then have "s_nextId st \<le> ms_id s" by simp
      from shareBefore_new [OF pk this] c3 m show "ms_shareOfVoice s = None" by simp
    qed
    from c1 z c3 c4 show ?thesis by blast
  next
    case True
    with p4 obtain found st4 where
      f: "prismaCall env (findSnapshots runId) st3 = (Inr found, st4)"
      and l: "forEach (\<lambda>snapshot. prismaCall env
                    (updateShareOfVoice (ms_id snapshot) (shareOf t snapshot))) found st4 = (Inr (), st')"
      unfolding t_def shareOf_def by blast
    from prismaCall_Inr [OF f] have found: "found = runSnapshots runId st2"
      and st4: "s_snapshots st4 = s_snapshots st2"
      unfolding st3 by (auto simp: findSnapshots_def runSnapshots_def)
    from k2 have d: "distinct (map ms_id (s_snapshots st2))"
      by (simp add: sharesKept_def primaryKeys_def)
    have sub: "set found \<subseteq> set (s_snapshots st2)"
      unfolding found runSnapshots_def by auto
    have "s_snapshots st' = fold (\<lambda>sn. setShare (ms_id sn) (shareOf t sn)) found (s_snapshots st2)"
      using updateLoop [OF l] st4 by simp
    also have "s_snapshots st2 = map (\<lambda>s. if s \<in> {} then ?upd s else s) (s_snapshots st2)"
      by simp
    also have "fold (\<lambda>sn. setShare (ms_id sn) (shareOf t sn)) found \<dots>
                 = map (\<lambda>s. if s \<in> {} \<union> set found then ?upd s else s) (s_snapshots st2)"
      by (rule fold_setShare [OF d sub])
    also have "\<dots> = map (\<lambda>s. if ?P s then ?upd s else s) (s_snapshots st2)"
      by (rule map_cong [OF refl]) (simp add: found runSnapshots_def)
    finally have final: "s_snapshots st' = map (\<lambda>s. if ?P s then ?upd s else s) (s_snapshots st2)" .
    have r: "runSnapshots runId st' = map ?upd found"
      unfolding runSnapshots_def final found by (rule filter_map_share)
    have mc: "map ms_mentionCount (runSnapshots runId st') = map ms_mentionCount found"
      unfolding r by simp
    have tt: "sum_list (map ms_mentionCount (runSnapshots runId st')) = t"
      unfolding mc t found ..
    have c1: "\<forall>b \<in> set (pj_brands project). \<exists>s \<in> set (runSnapshots runId st'). ms_brandId s = b_id b"
    proof
      fix b assume "b \<in> set (pj_brands project)"
      with rows2 obtain s where "s \<in> set found" "ms_brandId s = b_id b"
        unfolding found by (auto simp: hasRow_def runSnapshots_def)
      then have "?upd s \<in> set (runSnapshots runId st')" "ms_brandId (?upd s) = b_id b"
        unfolding r by simp_all
      then show "\<exists>s \<in> set (runSnapshots runId st'). ms_brandId s = b_id b" by blast
    qed
    have c2: "\<forall>s \<in> set (runSnapshots runId st').
               ms_shareOfVoice s
                 = Some (real (ms_mentionCount s) /
                         real (sum_list (map ms_mentionCount (runSnapshots runId st'))) * 100)"
      unfolding tt unfolding r by (auto simp: shareOf_def)
    have "sum_list (List.map_filter ms_shareOfVoice (runSnapshots runId st'))
            = sum_list (map (shareOf t) found)"
      unfolding r map_filter_share ..
    also have "\<dots> = 100"
      using sum_shares [of found] True unfolding t found by simp
    finally have c3: "sum_list (List.map_filter ms_shareOfVoice (runSnapshots runId st')) = 100" .
    from True have nz: "sum_list (map ms_mentionCount (runSnapshots runId st')) \<noteq> 0"
      unfolding tt by simp
    from c1 c2 c3 nz show ?thesis by blast
  qed
qed


text \<open>
  Two stored prompt results of a run for a project of two brands, of which the first is
  mentioned in both and the second in one; and an environment in which the model answers
  without mentioning a brand.
\<close>

definition metricsProject :: project where
  "metricsProject =
     \<lparr>pj_brands = [\<lparr>b_id = ''b1'', b_name = ''Acme''\<rparr>, \<lparr>b_id = ''b2'', b_name = ''Bolt''\<rparr>],
      pj_prompts = [\<lparr>p_id = ''p1'', p_text = ''best tools'', p_isActive = True\<rparr>,
                    \<lparr>p_id = ''p2'', p_text = ''top tools'', p_isActive = True\<rparr>]\<rparr>"

definition metricsState :: state where
  "metricsState =
     \<lparr>s_projects = [''pj'' \<mapsto> metricsProject],
      s_runs = Map.empty,
      s_promptResults =
        [\<lparr>r_id = 0, r_analysisRunId = ''run'', r_promptId = ''p1'', r_rawResponse = Some ''Acme, Bolt'',
          r_responseLength = Some 10, r_processingTimeMs = Some 0, r_error = None\<rparr>,
         \<lparr>r_id = 1, r_analysisRunId = ''run'', r_promptId = ''p2'', r_rawResponse = Some ''Acme'',
          r_responseLength = Some 4, r_processingTimeMs = Some 0, r_error = None\<rparr>],
      s_brandMentions =
        [\<lparr>bm_promptResultId = 0, bm_brandId = ''b1'', bm_position = Some 1, bm_sentiment = Some Neutral,
          bm_sentimentScore = Some 0, bm_contextSnippet = Some ''Acme, Bolt'', bm_isRecommended = False\<rparr>,
         \<lparr>bm_promptResultId = 0, bm_brandId = ''b2'', bm_position = Some 2, bm_sentiment = Some Neutral,
          bm_sentimentScore = Some 0, bm_contextSnippet = Some ''Acme, Bolt'', bm_isRecommended = False\<rparr>,
         \<lparr>bm_promptResultId = 1, bm_brandId = ''b1'', bm_position = Some 1, bm_sentiment = Some Neutral,
          bm_sentimentScore = Some 0, bm_contextSnippet = Some ''Acme'', bm_isRecommended = False\<rparr>,
         \<lparr>bm_promptResultId = 1, bm_brandId = ''b2'', bm_position = None, bm_sentiment = None,
          bm_sentimentScore = None, bm_contextSnippet = None, bm_isRecommended = False\<rparr>],
      s_citations = [], s_snapshots = [], s_nextId = 2, s_calls = 0, s_events = []\<rparr>"

definition quietEnv :: env where
  "quietEnv = idleEnv\<lparr>generateContent := (\<lambda>n p. Inr \<lparr>resp_text = ''ok'', resp_groundingMetadata = None\<rparr>)\<rparr>"

theorem share_of_voice_witness:
  "primaryKeys metricsState \<and>
   fst (calculateMetrics idleEnv ''run'' metricsProject metricsState) = Inr () \<and>
   map (\<lambda>s. (ms_brandId s, ms_mentionCount s))
     (runSnapshots ''run'' (snd (calculateMetrics idleEnv ''run'' metricsProject metricsState)))
     = [(''b1'', 2), (''b2'', 1)] \<and>
   map ms_shareOfVoice
     (runSnapshots ''run'' (snd (calculateMetrics idleEnv ''run'' metricsProject metricsState)))
     = [Some (200 / 3), Some (100 / 3)] \<and>
   sum_list (List.map_filter ms_shareOfVoice
     (runSnapshots ''run'' (snd (calculateMetrics idleEnv ''run'' metricsProject metricsState)))) = 100 \<and>
   primaryKeys exampleState \<and> runSnapshots ''run'' exampleState = [] \<and>
   fst (calculateMetrics idleEnv ''run'' exampleProject exampleState) = Inr () \<and>
   map (\<lambda>s. (ms_brandId s, ms_mentionCount s))
     (runSnapshots ''run'' (snd (calculateMetrics idleEnv ''run'' exampleProject exampleState)))
     = [(''b1'', 0)] \<and>
   map ms_shareOfVoice
     (runSnapshots ''run'' (snd (calculateMetrics idleEnv ''run'' exampleProject exampleState)))
     = [None]"
proof -
  let ?st = "snd (calculateMetrics idleEnv ''run'' metricsProject metricsState)"
  let ?rows = "runSnapshots ''run'' ?st"
  have pk: "primaryKeys metricsState"
    by (simp add: primaryKeys_def metricsState_def)
  have ok: "fst (calculateMetrics idleEnv ''run'' metricsProject metricsState) = Inr ()"
    by code_simp
  then have cm: "calculateMetrics idleEnv ''run'' metricsProject metricsState = (Inr (), ?st)"
    by (simp add: prod_eq_iff)
  have rows: "map (\<lambda>s. (ms_brandId s, ms_mentionCount s)) ?rows = [(''b1'', 2), (''b2'', 1)]"
    by code_simp
  then obtain a b where ab: "?rows = [a, b]" "ms_mentionCount a = 2" "ms_mentionCount b = 1"
    by auto
  note t = share_of_voice [OF pk cm]
  from ab have pos: "0 < sum_list (map ms_mentionCount ?rows)" by simp
  from t pos ab have shares: "map ms_shareOfVoice ?rows = [Some (200 / 3), Some (100 / 3)]"
    by simp
  from t pos have total: "sum_list (List.map_filter ms_shareOfVoice ?rows) = 100"
    by blast
  let ?st0 = "snd (calculateMetrics idleEnv ''run'' exampleProject exampleState)"
  let ?rows0 = "runSnapshots ''run'' ?st0"
  have pk0: "primaryKeys exampleState"
    by (simp add: primaryKeys_def exampleState_def)
  have fresh: "runSnapshots ''run'' exampleState = []"
    by (simp add: runSnapshots_def exampleState_def)
  have ok0: "fst (calculateMetrics idleEnv ''run'' exampleProject exampleState) = Inr ()"
    by code_simp
  then have cm0: "calculateMetrics idleEnv ''run'' exampleProject exampleState = (Inr (), ?st0)"
    by (simp add: prod_eq_iff)
  have rows0: "map (\<lambda>s. (ms_brandId s, ms_mentionCount s)) ?rows0 = [(''b1'', 0)]"
    by code_simp
  then obtain c where c: "?rows0 = [c]" "ms_mentionCount c = 0"
    by auto
  note t0 = share_of_voice [OF pk0 cm0]
  from c have zero: "sum_list (map ms_mentionCount ?rows0) = 0" by simp
  from t0 zero fresh have "\<forall>s \<in> set ?rows0. ms_shareOfVoice s = None"
    by blast
  with c have shares0: "map ms_shareOfVoice ?rows0 = [None]"
    by simp
  from pk ok rows shares total pk0 fresh ok0 rows0 shares0 show ?thesis by blast
qed

text \<open>
  The claim as first stated has every shareOfVoice equal to 0, and not \<^verbatim>\<open>null\<close>, when
  the total is 0. In the run below the model answers the one prompt without mentioning the
  brand: the run completes, the snapshot of the brand exists with mentionCount 0, and its
  shareOfVoice is \<^verbatim>\<open>null\<close>.
\<close>

theorem share_of_voice_counterexample:
  "map re_success (projr (fst (runAnalysis quietEnv True ''pj'' ''run'' exampleState))) = [True] \<and>
   map_option ar_status (s_runs (snd (runAnalysis quietEnv True ''pj'' ''run'' exampleState)) ''run'')
     = Some Completed \<and>
   map (\<lambda>s. (ms_analysisRunId s, ms_brandId s, ms_mentionCount s, ms_shareOfVoice s))
     (s_snapshots (snd (runAnalysis quietEnv True ''pj'' ''run'' exampleState)))
     = [(''run'', ''b1'', 0, None)]"
  by code_simp

end
